theory Spec2Isabelle
  imports Main
begin

section \<open>Data model\<close>

text \<open>
  Functions of the host application (guards, hooks, callbacks) are opaque to the router:
  the model knows them by identity only and records every call it makes to one of them.
\<close>

type_synonym fn = nat

text \<open>
  The values a guard can hand to its continuation (\<^verbatim>\<open>to: any\<close> in \<^verbatim>\<open>iterator\<close>).
\<close>

datatype jsval =
    Undefined
  | Null
  | Bool bool
  | Num int
  | Str string
  | Error string
  | Fun fn
  | Obj "(string \<times> jsval) list"

text \<open>A live component instance, with the flag \<^verbatim>\<open>poll\<close> reads.\<close>

record vm =
  inst_id :: nat
  isBeingDestroyed :: bool

text \<open>
  What \<^verbatim>\<open>def.options[key]\<close> can hold for a guard name: one function or an array of
  functions (absent keys are \<open>None\<close> in the lookup).
\<close>

datatype guard_decl = OneGuard fn | GuardArray "fn list"

record component =
  options :: "(string \<times> guard_decl) list"

text \<open>
  A route record. \<open>rec_ref\<close> is the identity of the JavaScript object: the source compares
  records with \<^verbatim>\<open>!==\<close>, which is a comparison of \<open>rec_ref\<close> here.
\<close>

record RouteRecord =
  rec_ref :: nat
  components :: "(string \<times> component) list"
  instances :: "(string \<times> vm) list"
  beforeEnter :: "fn option"

text \<open>
  A route. \<open>route_ref\<close> is the identity of the JavaScript object: \<^verbatim>\<open>pending !== route\<close>
  and \<^verbatim>\<open>current === route\<close> compare \<open>route_ref\<close>.
\<close>

record Route =
  route_ref :: nat
  path :: string
  hash :: string
  query :: "(string \<times> string) list"
  params :: "(string \<times> string) list"
  fullPath :: string
  matched :: "RouteRecord list"

text \<open>
  An entry of a guard queue: a function of the application called as it is (a global hook
  or a \<^verbatim>\<open>beforeEnter\<close>), the \<^verbatim>\<open>boundRouteGuard\<close> closure of \<^verbatim>\<open>bindGuard\<close>, the
  \<^verbatim>\<open>routeEnterGuard\<close> closure of \<^verbatim>\<open>bindEnterGuard\<close> (guard, record, key), and the one
  step that \<^verbatim>\<open>resolveAsyncComponents(activated)\<close> returns.
\<close>

datatype guard =
    Hook fn
  | BoundRouteGuard fn vm
  | RouteEnterGuard fn RouteRecord string
  | ResolveAsyncComponents "RouteRecord list"

text \<open>
  Every call the controller makes to code outside itself is recorded, in order, by the
  place that makes it: the callbacks of \<^verbatim>\<open>onReady\<close> (called with no argument or
  with the route) and its error callbacks, the callbacks of \<^verbatim>\<open>onError\<close>, the
  \<^verbatim>\<open>onAbort\<close> and \<^verbatim>\<open>onComplete\<close> given to \<^verbatim>\<open>transitionTo\<close>, the listener
  \<^verbatim>\<open>this.cb\<close>, the after hooks, a guard invoked with \<^verbatim>\<open>(route, current)\<close>, the
  location driver's \<^verbatim>\<open>ensureURL\<close>, \<^verbatim>\<open>push\<close> and \<^verbatim>\<open>replace\<close> (implemented by
  sub-classes), the warning for an uncaught error, and \<^verbatim>\<open>$nextTick\<close>. For the
  listener and the after hooks, which \<^verbatim>\<open>updateRoute\<close> calls, the record also holds,
  last, the route that \<^verbatim>\<open>this.current\<close> is at the moment of the call.
\<close>

datatype call =
    ReadyCb fn "Route option"
  | ReadyErrorCb fn jsval
  | ErrorCb fn jsval
  | OnAbort fn jsval
  | OnComplete fn Route
  | Listener fn Route Route
  | AfterHook fn Route Route Route
  | CallGuard guard Route Route
  | EnsureURL "bool option"
  | Push jsval
  | Replace jsval
  | Warn jsval
  | NextTick

record Router =
  beforeHooks :: "fn option list"
  resolveHooks :: "fn option list"
  afterHooks :: "fn option list"
  app :: "nat option"

record History =
  router :: Router
  current :: Route
  pending :: "Route option"
  cb :: "fn option"
  ready :: bool
  readyCbs :: "fn list"
  readyErrorCbs :: "fn list"
  errorCbs :: "fn list"
  calls :: "call list"

definition log :: "call list \<Rightarrow> History \<Rightarrow> History" where
  "log cs h = h\<lparr> calls := calls h @ cs \<rparr>"

section \<open>JavaScript values\<close>

definition typeof :: "jsval \<Rightarrow> string" where
  "typeof v = (case v of
       Undefined \<Rightarrow> ''undefined''
     | Null \<Rightarrow> ''object''
     | Bool _ \<Rightarrow> ''boolean''
     | Num _ \<Rightarrow> ''number''
     | Str _ \<Rightarrow> ''string''
     | Error _ \<Rightarrow> ''object''
     | Fun _ \<Rightarrow> ''function''
     | Obj _ \<Rightarrow> ''object'')"

definition truthy :: "jsval \<Rightarrow> bool" where
  "truthy v = (case v of
       Undefined \<Rightarrow> False
     | Null \<Rightarrow> False
     | Bool b \<Rightarrow> b
     | Num n \<Rightarrow> n \<noteq> 0
     | Str s \<Rightarrow> s \<noteq> []
     | _ \<Rightarrow> True)"

datatype exn = TypeError

text \<open>
  Reading a property: a \<^verbatim>\<open>TypeError\<close> on \<^verbatim>\<open>null\<close> and \<^verbatim>\<open>undefined\<close>, the stored
  value on an object, \<^verbatim>\<open>undefined\<close> when the property is absent.
\<close>

definition get_prop :: "jsval \<Rightarrow> string \<Rightarrow> exn + jsval" where
  "get_prop v k = (case v of
       Undefined \<Rightarrow> Inl TypeError
     | Null \<Rightarrow> Inl TypeError
     | Obj props \<Rightarrow> (case map_of props k of None \<Rightarrow> Inr Undefined | Some x \<Rightarrow> Inr x)
     | _ \<Rightarrow> Inr Undefined)"

text \<open>
  Modelled from the spec: \<^verbatim>\<open>isError\<close> of \<^verbatim>\<open>util/warn\<close> is not among the sources; the
  specification speaks of "an error value".
\<close>

definition isError :: "jsval \<Rightarrow> bool" where
  "isError v = (case v of Error _ \<Rightarrow> True | _ \<Rightarrow> False)"

section \<open>Route equality\<close>

text \<open>
  Modelled from the spec: \<^verbatim>\<open>START\<close> of \<^verbatim>\<open>util/route\<close> is not among the sources; it is
  the sentinel route with an empty matched sequence and an empty path.
\<close>

definition START :: Route where
  "START = \<lparr> route_ref = 0, path = [], hash = [], query = [], params = [],
             fullPath = [], matched = [] \<rparr>"

definition strip_trailing_slash :: "string \<Rightarrow> string" where
  "strip_trailing_slash p = (if p \<noteq> [] \<and> last p = CHR ''/'' then butlast p else p)"

definition obj_equal :: "(string \<times> string) list \<Rightarrow> (string \<times> string) list \<Rightarrow> bool" where
  "obj_equal a b =
     (set (map fst a) = set (map fst b) \<and> list_all (\<lambda>k. map_of a k = map_of b k) (map fst a))"

text \<open>
  Modelled from the spec: \<^verbatim>\<open>isSameRoute\<close> of \<^verbatim>\<open>util/route\<close> is not among the sources.
  Two routes are the same iff both are the START sentinel, or path (trailing slash
  normalized away), hash, query and params are all equal, the maps order-insensitively.
\<close>

definition isSameRoute :: "Route \<Rightarrow> Route \<Rightarrow> bool" where
  "isSameRoute a b =
     ((route_ref a = route_ref START \<and> route_ref b = route_ref START) \<or>
      (strip_trailing_slash (path a) = strip_trailing_slash (path b) \<and>
       hash a = hash b \<and>
       obj_equal (query a) (query b) \<and>
       obj_equal (params a) (params b)))"

section \<open>Route diff\<close>

text \<open>\<^verbatim>\<open>arr[i]\<close> on an array of records: \<^verbatim>\<open>undefined\<close> (here \<open>None\<close>) out of range.\<close>

definition ref_at :: "RouteRecord list \<Rightarrow> nat \<Rightarrow> nat option" where
  "ref_at xs i = (if i < length xs then Some (rec_ref (xs ! i)) else None)"

record route_diff =
  updated :: "RouteRecord list"
  activated :: "RouteRecord list"
  deactivated :: "RouteRecord list"

text \<open>
  The \<^verbatim>\<open>for\<close> loop of \<^verbatim>\<open>resolveQueue\<close>: from \<open>i\<close>, stop at the first index where
  \<^verbatim>\<open>current[i] !== next[i]\<close>, or at \<open>mx\<close>.
\<close>

function resolveQueue_loop :: "RouteRecord list \<Rightarrow> RouteRecord list \<Rightarrow> nat \<Rightarrow> nat \<Rightarrow> nat" where
  "resolveQueue_loop cur nxt mx i =
     (if i < mx then
        (if ref_at cur i \<noteq> ref_at nxt i then i
         else resolveQueue_loop cur nxt mx (Suc i))
      else i)"
  by pat_completeness auto
termination
  by (relation "measure (\<lambda>(cur, nxt, mx, i). mx - i)") auto

declare resolveQueue_loop.simps [simp del]

definition resolveQueue :: "RouteRecord list \<Rightarrow> RouteRecord list \<Rightarrow> route_diff" where
  "resolveQueue cur nxt =
     (let mx = max (length cur) (length nxt);
          i = resolveQueue_loop cur nxt mx 0
      in \<lparr> updated = take i nxt, activated = drop i nxt, deactivated = drop i cur \<rparr>)"

text \<open>
  The index the specification names: the first position at which the two sequences of
  record identities differ, or the shorter length when one is a prefix of the other.
\<close>

fun first_diff :: "nat list \<Rightarrow> nat list \<Rightarrow> nat" where
  "first_diff (x # xs) (y # ys) = (if x = y then Suc (first_diff xs ys) else 0)"
| "first_diff _ _ = 0"

section \<open>Guard extraction\<close>

text \<open>
  What the callback of \<^verbatim>\<open>extractGuards\<close> returns for one component slot:
  \<^verbatim>\<open>undefined\<close> when the definition has no guard of that name, the bound guard, or the
  array of bound guards. A bound guard is itself \<^verbatim>\<open>undefined\<close> (\<open>None\<close>) when
  \<^verbatim>\<open>bindGuard\<close> finds no instance.
\<close>

datatype extracted = NoGuard | One "guard option" | Several "guard option list"

text \<open>
  Modelled from the spec: \<^verbatim>\<open>flatMapComponents\<close> of \<^verbatim>\<open>util/resolve-components\<close> is not
  among the sources. For each record, for each named component slot, in order, the
  callback gets the slot's definition, its live instance if any, the record and the
  slot's name.
\<close>

definition flatMapComponents ::
  "RouteRecord list \<Rightarrow> (component \<Rightarrow> vm option \<Rightarrow> RouteRecord \<Rightarrow> string \<Rightarrow> 'a) \<Rightarrow> 'a list" where
  "flatMapComponents records fn =
     concat (map (\<lambda>m. map (\<lambda>(key, def). fn def (map_of (instances m) key) m key)
                            (components m)) records)"

text \<open>
  Modelled from the spec: \<^verbatim>\<open>flatten\<close> of \<^verbatim>\<open>util/resolve-components\<close> is not among the
  sources. Unresolved and empty entries are filtered out, and the guard lists, nested
  one level, are flattened into a single ordered sequence.
\<close>

definition flatten :: "extracted list \<Rightarrow> guard option list" where
  "flatten xs =
     concat (map (\<lambda>e. case e of
                         NoGuard \<Rightarrow> []
                       | One None \<Rightarrow> []
                       | One (Some g) \<Rightarrow> [Some g]
                       | Several gs \<Rightarrow> gs) xs)"

text \<open>
  \<^verbatim>\<open>def.options[key]\<close>; the definition is taken after \<^verbatim>\<open>_Vue.extend\<close>, which belongs
  to the host framework.
\<close>

definition extractGuard :: "component \<Rightarrow> string \<Rightarrow> guard_decl option" where
  "extractGuard def key = map_of (options def) key"

definition extractGuards ::
  "RouteRecord list \<Rightarrow> string \<Rightarrow> (fn \<Rightarrow> vm option \<Rightarrow> RouteRecord \<Rightarrow> string \<Rightarrow> guard option)
   \<Rightarrow> bool \<Rightarrow> guard option list" where
  "extractGuards records name bind reverse =
     (let guards = flatMapComponents records (\<lambda>def inst match key.
            case extractGuard def name of
              None \<Rightarrow> NoGuard
            | Some (GuardArray gs) \<Rightarrow> Several (map (\<lambda>g. bind g inst match key) gs)
            | Some (OneGuard g) \<Rightarrow> One (bind g inst match key))
      in flatten (if reverse then rev guards else guards))"

definition bindGuard :: "fn \<Rightarrow> vm option \<Rightarrow> guard option" where
  "bindGuard g inst = (case inst of None \<Rightarrow> None | Some i \<Rightarrow> Some (BoundRouteGuard g i))"

definition extractLeaveGuards :: "RouteRecord list \<Rightarrow> guard option list" where
  "extractLeaveGuards deact =
     extractGuards deact ''beforeRouteLeave'' (\<lambda>g inst match key. bindGuard g inst) True"

definition extractUpdateHooks :: "RouteRecord list \<Rightarrow> guard option list" where
  "extractUpdateHooks upd =
     extractGuards upd ''beforeRouteUpdate'' (\<lambda>g inst match key. bindGuard g inst) False"

text \<open>
  \<^verbatim>\<open>bindEnterGuard\<close> returns the closure \<^verbatim>\<open>routeEnterGuard\<close>; the array \<^verbatim>\<open>cbs\<close> and
  \<^verbatim>\<open>isValid\<close> that it captures belong to the transition and are kept there.
\<close>

definition bindEnterGuard :: "fn \<Rightarrow> RouteRecord \<Rightarrow> string \<Rightarrow> guard" where
  "bindEnterGuard g match key = RouteEnterGuard g match key"

definition extractEnterGuards :: "RouteRecord list \<Rightarrow> guard option list" where
  "extractEnterGuards act =
     extractGuards act ''beforeRouteEnter''
       (\<lambda>g inst match key. Some (bindEnterGuard g match key)) False"

section \<open>Queue runner\<close>

text \<open>
  Modelled from the spec: \<^verbatim>\<open>runQueue\<close> of \<^verbatim>\<open>util/async\<close> is not among the sources.
  Empty entries are skipped; the iterator is invoked on the first entry that is not
  empty, with a continuation that goes on with the entries after it; at the end of the
  list the final callback is invoked. The continuation is represented by the entries
  still to visit.
\<close>

fun runQueue :: "guard option list \<Rightarrow> (guard \<Rightarrow> guard option list \<Rightarrow> 'r) \<Rightarrow> 'r \<Rightarrow> 'r" where
  "runQueue [] fn final = final"
| "runQueue (None # queue) fn final = runQueue queue fn final"
| "runQueue (Some hook # queue) fn final = fn hook queue"

section \<open>Transition controller\<close>

definition listen :: "fn \<Rightarrow> History \<Rightarrow> History" where
  "listen f h = h\<lparr> cb := Some f \<rparr>"

definition onReady :: "fn \<Rightarrow> fn option \<Rightarrow> History \<Rightarrow> History" where
  "onReady f errorCb h =
     (if ready h then log [ReadyCb f None] h
      else
        (let h1 = h\<lparr> readyCbs := readyCbs h @ [f] \<rparr>
         in case errorCb of
              None \<Rightarrow> h1
            | Some e \<Rightarrow> h1\<lparr> readyErrorCbs := readyErrorCbs h1 @ [e] \<rparr>))"

definition onError :: "fn \<Rightarrow> History \<Rightarrow> History" where
  "onError errorCb h = h\<lparr> errorCbs := errorCbs h @ [errorCb] \<rparr>"

definition updateRoute :: "Route \<Rightarrow> History \<Rightarrow> History" where
  "updateRoute route h =
     (let prev = current h;
          h1 = h\<lparr> current := route \<rparr>;
          h2 = (case cb h1 of None \<Rightarrow> h1 | Some f \<Rightarrow> log [Listener f route (current h1)] h1)
      in log (concat (map (\<lambda>hook. case hook of
                                     None \<Rightarrow> []
                                   | Some f \<Rightarrow> [AfterHook f route prev (current h2)])
                          (afterHooks (router h2)))) h2)"

text \<open>The two closures \<^verbatim>\<open>transitionTo\<close> hands to \<^verbatim>\<open>confirmTransition\<close>.\<close>

definition transitionTo_onComplete :: "fn option \<Rightarrow> Route \<Rightarrow> History \<Rightarrow> History" where
  "transitionTo_onComplete onComplete route h =
     (let h1 = updateRoute route h;
          h2 = (case onComplete of None \<Rightarrow> h1 | Some f \<Rightarrow> log [OnComplete f route] h1);
          h3 = log [EnsureURL None] h2
      in if \<not> ready h3
         then log (map (\<lambda>f. ReadyCb f (Some route)) (readyCbs h3)) (h3\<lparr> ready := True \<rparr>)
         else h3)"

definition transitionTo_onAbort :: "fn option \<Rightarrow> jsval \<Rightarrow> History \<Rightarrow> History" where
  "transitionTo_onAbort onAbort err h =
     (let h1 = (case onAbort of None \<Rightarrow> h | Some f \<Rightarrow> log [OnAbort f err] h)
      in if truthy err \<and> \<not> ready h1
         then log (map (\<lambda>f. ReadyErrorCb f err) (readyErrorCbs h1)) (h1\<lparr> ready := True \<rparr>)
         else h1)"

text \<open>The closure \<^verbatim>\<open>abort\<close> of \<^verbatim>\<open>confirmTransition\<close>; \<^verbatim>\<open>abort()\<close> is \<open>abort _ Undefined\<close>.\<close>

definition abort :: "(jsval \<Rightarrow> History \<Rightarrow> History) option \<Rightarrow> jsval \<Rightarrow> History \<Rightarrow> History" where
  "abort onAbort err h =
     (let h1 = (if isError err then
                  (if errorCbs h \<noteq> [] then log (map (\<lambda>f. ErrorCb f err) (errorCbs h)) h
                   else log [Warn err] h)
                else h)
      in case onAbort of None \<Rightarrow> h1 | Some f \<Rightarrow> f err h1)"

text \<open>
  The environment of one \<^verbatim>\<open>confirmTransition\<close> call, as its closures capture it, and
  the place where its pipeline waits: the hook that was invoked last and the entries of
  the running queue after it.
\<close>

datatype stage = PreResolve | EnterResolve

record Transition =
  t_route :: Route
  t_current :: Route
  t_onComplete :: "Route \<Rightarrow> History \<Rightarrow> History"
  t_onAbort :: "(jsval \<Rightarrow> History \<Rightarrow> History) option"
  t_activated :: "RouteRecord list"
  t_postEnterCbs :: "(fn \<times> RouteRecord \<times> string) list"
  t_stage :: stage
  t_hook :: guard
  t_rest :: "guard option list"

text \<open>
  How a run of the controller's code ends: waiting for the continuation of the hook it
  just invoked, aborted, or committed.
\<close>

datatype outcome = Suspended Transition | Aborted | Committed Transition

definition iterator :: "Transition \<Rightarrow> guard \<Rightarrow> guard option list \<Rightarrow> History \<Rightarrow> History \<times> outcome" where
  "iterator t hook rest h =
     (if map_option route_ref (pending h) \<noteq> Some (route_ref (t_route t)) then
        (abort (t_onAbort t) Undefined h, Aborted)
      else
        (log [CallGuard hook (t_route t) (t_current t)] h,
         Suspended (t\<lparr> t_hook := hook, t_rest := rest \<rparr>)))"

text \<open>The final callback of the second \<^verbatim>\<open>runQueue\<close>.\<close>

definition commit_cb :: "Transition \<Rightarrow> History \<Rightarrow> History \<times> outcome" where
  "commit_cb t h =
     (if map_option route_ref (pending h) \<noteq> Some (route_ref (t_route t)) then
        (abort (t_onAbort t) Undefined h, Aborted)
      else
        (let h1 = h\<lparr> pending := None \<rparr>;
             h2 = t_onComplete t (t_route t) h1;
             h3 = (if app (router h2) \<noteq> None then log [NextTick] h2 else h2)
         in (h3, Committed t)))"

text \<open>The final callback of the first \<^verbatim>\<open>runQueue\<close>.\<close>

definition enter_cb :: "Transition \<Rightarrow> History \<Rightarrow> History \<times> outcome" where
  "enter_cb t h =
     (let t2 = t\<lparr> t_postEnterCbs := [], t_stage := EnterResolve \<rparr>;
          enterGuards = extractEnterGuards (t_activated t);
          queue = enterGuards @ map (map_option Hook) (resolveHooks (router h))
      in runQueue queue (iterator t2) (commit_cb t2) h)"

text \<open>The continuation \<^verbatim>\<open>next\<close> that \<^verbatim>\<open>runQueue\<close> gave to the iterator.\<close>

definition resume :: "Transition \<Rightarrow> History \<Rightarrow> History \<times> outcome" where
  "resume t h =
     (case t_stage t of
        PreResolve \<Rightarrow> runQueue (t_rest t) (iterator t) (enter_cb t) h
      | EnterResolve \<Rightarrow> runQueue (t_rest t) (iterator t) (commit_cb t) h)"

text \<open>
  The test \<^verbatim>\<open>typeof to === 'string' || (typeof to === 'object' && (typeof to.path ===
  'string' || typeof to.name === 'string'))\<close>, with the exception a property read raises.
\<close>

definition is_redirect :: "jsval \<Rightarrow> exn + bool" where
  "is_redirect to =
     (if typeof to = ''string'' then Inr True
      else if typeof to = ''object'' then
        (case get_prop to ''path'' of
           Inl e \<Rightarrow> Inl e
         | Inr p \<Rightarrow>
             if typeof p = ''string'' then Inr True
             else (case get_prop to ''name'' of
                     Inl e \<Rightarrow> Inl e
                   | Inr n \<Rightarrow> Inr (typeof n = ''string'')))
      else Inr False)"

text \<open>\<^verbatim>\<open>typeof to === 'object' && to.replace\<close>, read after \<open>is_redirect\<close> held.\<close>

definition wants_replace :: "jsval \<Rightarrow> bool" where
  "wants_replace to =
     (typeof to = ''object'' \<and> (case get_prop to ''replace'' of Inl e \<Rightarrow> False | Inr r \<Rightarrow> truthy r))"

text \<open>
  The callback the iterator passes to the hook as its third argument. \<open>Inl\<close> is an
  exception the callback raises to whoever called it.
\<close>

definition resolution :: "Transition \<Rightarrow> jsval \<Rightarrow> History \<Rightarrow> exn + History \<times> outcome" where
  "resolution t to h =
     (if to = Bool False \<or> isError to then
        Inr (abort (t_onAbort t) to (log [EnsureURL (Some True)] h), Aborted)
      else
        (case is_redirect to of
           Inl e \<Rightarrow> Inl e
         | Inr True \<Rightarrow>
             (let h1 = abort (t_onAbort t) Undefined h
              in Inr (if wants_replace to then log [Replace to] h1 else log [Push to] h1, Aborted))
         | Inr False \<Rightarrow> Inr (resume t h)))"

text \<open>\<^verbatim>\<open>cbs.push\<close> on the array the closures of the transition share.\<close>

definition push_cb :: "fn \<times> RouteRecord \<times> string \<Rightarrow> outcome \<Rightarrow> outcome" where
  "push_cb c out =
     (case out of
        Suspended t \<Rightarrow> Suspended (t\<lparr> t_postEnterCbs := t_postEnterCbs t @ [c] \<rparr>)
      | Committed t \<Rightarrow> Committed (t\<lparr> t_postEnterCbs := t_postEnterCbs t @ [c] \<rparr>)
      | Aborted \<Rightarrow> Aborted)"

text \<open>
  What the hook that was invoked last calls when it calls its continuation with \<open>v\<close>:
  the iterator's callback, or for a \<^verbatim>\<open>routeEnterGuard\<close> the wrapper that calls it and
  then queues a function value as a post-enter callback.
\<close>

definition continuation :: "Transition \<Rightarrow> jsval \<Rightarrow> History \<Rightarrow> exn + History \<times> outcome" where
  "continuation t v h =
     (case t_hook t of
        RouteEnterGuard g match key \<Rightarrow>
          (case resolution t v h of
             Inl e \<Rightarrow> Inl e
           | Inr (h', out) \<Rightarrow>
               Inr (h', case v of Fun f \<Rightarrow> push_cb (f, match, key) out | _ \<Rightarrow> out))
      | _ \<Rightarrow> resolution t v h)"

text \<open>\<^verbatim>\<open>catch (e) { abort(e) }\<close>: the hook that was invoked last threw \<open>e\<close>.\<close>

definition hook_threw :: "Transition \<Rightarrow> jsval \<Rightarrow> History \<Rightarrow> History \<times> outcome" where
  "hook_threw t e h = (abort (t_onAbort t) e h, Aborted)"

text \<open>The queue \<^verbatim>\<open>[].concat(...)\<close> that \<^verbatim>\<open>confirmTransition\<close> builds.\<close>

definition preResolveQueue :: "Router \<Rightarrow> route_diff \<Rightarrow> guard option list" where
  "preResolveQueue r d =
     extractLeaveGuards (deactivated d) @
     map (map_option Hook) (beforeHooks r) @
     extractUpdateHooks (updated d) @
     map (\<lambda>m. map_option Hook (beforeEnter m)) (activated d) @
     [Some (ResolveAsyncComponents (activated d))]"

definition confirmTransition ::
  "Route \<Rightarrow> (Route \<Rightarrow> History \<Rightarrow> History) \<Rightarrow> (jsval \<Rightarrow> History \<Rightarrow> History) option
   \<Rightarrow> History \<Rightarrow> History \<times> outcome" where
  "confirmTransition route onComplete onAbort h =
     (let current0 = current h
      in if isSameRoute route current0 \<and> length (matched route) = length (matched current0)
         then (abort onAbort Undefined (log [EnsureURL None] h), Aborted)
         else
           (let d = resolveQueue (matched (current h)) (matched route);
                queue = preResolveQueue (router h) d;
                h1 = h\<lparr> pending := Some route \<rparr>;
                t = \<lparr> t_route = route, t_current = current0, t_onComplete = onComplete,
                      t_onAbort = onAbort, t_activated = activated d, t_postEnterCbs = [],
                      t_stage = PreResolve, t_hook = ResolveAsyncComponents (activated d),
                      t_rest = [] \<rparr>
            in runQueue queue (iterator t) (enter_cb t) h1))"

text \<open>
  \<^verbatim>\<open>transitionTo\<close>; \<open>match\<close> is the router's matcher, an external collaborator, at the
  time of the call.
\<close>

definition transitionTo ::
  "(jsval \<Rightarrow> Route \<Rightarrow> Route) \<Rightarrow> jsval \<Rightarrow> fn option \<Rightarrow> fn option \<Rightarrow> History
   \<Rightarrow> History \<times> outcome" where
  "transitionTo match location onComplete onAbort h =
     (let route = match location (current h)
      in confirmTransition route (transitionTo_onComplete onComplete)
           (Some (transitionTo_onAbort onAbort)) h)"

text \<open>The state of a controller as the constructor leaves it.\<close>

definition new_History :: "Router \<Rightarrow> History" where
  "new_History r = \<lparr> router = r, current = START, pending = None, cb = None, ready = False,
                     readyCbs = [], readyErrorCbs = [], errorCbs = [], calls = [] \<rparr>"

section \<open>Post-enter poll\<close>

datatype poll_step = Invoke vm | Retry | Stop





section \<open>The router's hook registries\<close>

datatype registry = Before | Resolve | After

text \<open>
  \<^verbatim>\<open>registerHook\<close> appends the function; the function it returns removes its first
  occurrence.
\<close>

definition registerHook :: "fn option list \<Rightarrow> fn \<Rightarrow> fn option list" where
  "registerHook hooks f = hooks @ [Some f]"

definition unregisterHook :: "fn option list \<Rightarrow> fn \<Rightarrow> fn option list" where
  "unregisterHook hooks f = remove1 (Some f) hooks"

definition on_registry ::
  "registry \<Rightarrow> (fn option list \<Rightarrow> fn option list) \<Rightarrow> History \<Rightarrow> History" where
  "on_registry k upd h =
     (case k of
        Before \<Rightarrow> h\<lparr> router := (router h)\<lparr> beforeHooks := upd (beforeHooks (router h)) \<rparr> \<rparr>
      | Resolve \<Rightarrow> h\<lparr> router := (router h)\<lparr> resolveHooks := upd (resolveHooks (router h)) \<rparr> \<rparr>
      | After \<Rightarrow> h\<lparr> router := (router h)\<lparr> afterHooks := upd (afterHooks (router h)) \<rparr> \<rparr>)"

section \<open>The controller over time\<close>

text \<open>
  Between two runs of its code the controller is its state and the continuations it has
  handed to hooks so far; a hook may call the one it holds at any later time, whatever
  has happened since.
\<close>

record Machine =
  hist :: History
  waiting :: "Transition list"

text \<open>
  What the world outside does: a navigation (with the matcher as it is then), a hook
  calling its continuation, a hook having thrown, and the registrations.
\<close>

datatype event =
    Navigate "jsval \<Rightarrow> Route \<Rightarrow> Route" jsval "fn option" "fn option"
  | Continue nat jsval
  | Threw nat jsval
  | OnReady fn "fn option"
  | OnError fn
  | Listen fn
  | Register registry fn
  | Unregister registry fn

definition settle :: "Machine \<Rightarrow> History \<times> outcome \<Rightarrow> Machine" where
  "settle m r =
     (case snd r of
        Suspended t \<Rightarrow> \<lparr> hist = fst r, waiting = waiting m @ [t] \<rparr>
      | _ \<Rightarrow> \<lparr> hist = fst r, waiting = waiting m \<rparr>)"

fun step :: "event \<Rightarrow> Machine \<Rightarrow> Machine" where
  "step (Navigate match location oc oa) m = settle m (transitionTo match location oc oa (hist m))"
| "step (Continue n v) m =
     (if n < length (waiting m) then
        (case continuation (waiting m ! n) v (hist m) of
           Inl e \<Rightarrow> m
         | Inr r \<Rightarrow> settle m r)
      else m)"
| "step (Threw n e) m =
     (if n < length (waiting m) then settle m (hook_threw (waiting m ! n) e (hist m)) else m)"
| "step (OnReady f errorCb) m = m\<lparr> hist := onReady f errorCb (hist m) \<rparr>"
| "step (OnError f) m = m\<lparr> hist := onError f (hist m) \<rparr>"
| "step (Listen f) m = m\<lparr> hist := listen f (hist m) \<rparr>"
| "step (Register k f) m = m\<lparr> hist := on_registry k (\<lambda>hooks. registerHook hooks f) (hist m) \<rparr>"
| "step (Unregister k f) m = m\<lparr> hist := on_registry k (\<lambda>hooks. unregisterHook hooks f) (hist m) \<rparr>"

fun run :: "event list \<Rightarrow> Machine \<Rightarrow> Machine" where
  "run [] m = m"
| "run (e # es) m = run es (step e m)"

definition init :: "Router \<Rightarrow> Machine" where
  "init r = \<lparr> hist = new_History r, waiting = [] \<rparr>"

text \<open>
  The matcher makes a new route object for every navigation: no navigation of \<open>es\<close>
  gets the object of an earlier transition, or \<open>START\<close>.
\<close>

fun fresh :: "event list \<Rightarrow> Machine \<Rightarrow> bool" where
  "fresh [] m = True"
| "fresh (e # es) m =
     ((case e of
         Navigate match location oc oa \<Rightarrow>
           route_ref (match location (current (hist m)))
             \<notin> set (route_ref START # map (\<lambda>t. route_ref (t_route t)) (waiting m))
       | _ \<Rightarrow> True) \<and>
      fresh es (step e m))"

text \<open>
  One transition alone: its hooks call their continuations with the values \<open>vs\<close>, one
  after the other, and nothing else happens in between.
\<close>

fun advance :: "jsval list \<Rightarrow> History \<times> outcome \<Rightarrow> History \<times> outcome" where
  "advance [] r = r"
| "advance (v # vs) (h, Suspended t) =
     (case continuation t v h of Inl e \<Rightarrow> (h, Suspended t) | Inr r \<Rightarrow> advance vs r)"
| "advance (v # vs) r = r"

section \<open>The calls of an abort and of a commit\<close>

definition guards_of :: "guard option list \<Rightarrow> guard list" where
  "guards_of queue = concat (map (\<lambda>x. case x of None \<Rightarrow> [] | Some g \<Rightarrow> [g]) queue)"

definition called_guards :: "call list \<Rightarrow> guard list" where
  "called_guards cs = concat (map (\<lambda>c. case c of CallGuard g r f \<Rightarrow> [g] | _ \<Rightarrow> []) cs)"

definition error_calls :: "jsval \<Rightarrow> History \<Rightarrow> call list" where
  "error_calls err h =
     (if isError err then
        (if errorCbs h \<noteq> [] then map (\<lambda>f. ErrorCb f err) (errorCbs h) else [Warn err])
      else [])"

definition abort_calls :: "fn option \<Rightarrow> jsval \<Rightarrow> History \<Rightarrow> call list" where
  "abort_calls onAbort err h =
     error_calls err h @
     (case onAbort of None \<Rightarrow> [] | Some f \<Rightarrow> [OnAbort f err]) @
     (if truthy err \<and> \<not> ready h then map (\<lambda>f. ReadyErrorCb f err) (readyErrorCbs h) else [])"

definition updateRoute_calls :: "Route \<Rightarrow> History \<Rightarrow> call list" where
  "updateRoute_calls route h =
     (case cb h of None \<Rightarrow> [] | Some f \<Rightarrow> [Listener f route route]) @
     concat (map (\<lambda>hook. case hook of None \<Rightarrow> []
                           | Some f \<Rightarrow> [AfterHook f route (current h) route])
                 (afterHooks (router h)))"

definition commit_calls :: "fn option \<Rightarrow> Route \<Rightarrow> History \<Rightarrow> call list" where
  "commit_calls onComplete route h =
     updateRoute_calls route h @
     (case onComplete of None \<Rightarrow> [] | Some f \<Rightarrow> [OnComplete f route]) @
     [EnsureURL None] @
     (if \<not> ready h then map (\<lambda>f. ReadyCb f (Some route)) (readyCbs h) else []) @
     (if app (router h) \<noteq> None then [NextTick] else [])"

section \<open>Shapes of a step\<close>

text \<open>
  The forms the state takes after a run of the controller's code for a transition that
  \<^verbatim>\<open>transitionTo\<close> started with callbacks \<open>oc\<close> and \<open>ua\<close>: aborted, a hook
  invoked, or committed.
\<close>

definition live :: "Transition \<Rightarrow> History \<Rightarrow> bool" where
  "live t h = (map_option route_ref (pending h) = Some (route_ref (t_route t)))"

definition closures :: "fn option \<Rightarrow> fn option \<Rightarrow> Transition \<Rightarrow> bool" where
  "closures oc ua t =
     (t_onComplete t = transitionTo_onComplete oc \<and> t_onAbort t = Some (transitionTo_onAbort ua))"

definition same_transition :: "Transition \<Rightarrow> Transition \<Rightarrow> bool" where
  "same_transition t t' =
     (t_route t' = t_route t \<and> t_current t' = t_current t \<and>
      t_onComplete t' = t_onComplete t \<and> t_onAbort t' = t_onAbort t)"

definition aborted :: "fn option \<Rightarrow> jsval \<Rightarrow> call list \<Rightarrow> call list \<Rightarrow> History \<Rightarrow> History" where
  "aborted ua err pre post h =
     h\<lparr> ready := ready h \<or> truthy err,
        calls := calls h @ pre @ abort_calls ua err h @ post \<rparr>"

definition committed :: "fn option \<Rightarrow> Route \<Rightarrow> History \<Rightarrow> History" where
  "committed oc route h =
     h\<lparr> current := route, pending := None, ready := True,
        calls := calls h @ commit_calls oc route h \<rparr>"

definition invoked :: "guard \<Rightarrow> Transition \<Rightarrow> History \<Rightarrow> History" where
  "invoked g t h = h\<lparr> calls := calls h @ [CallGuard g (t_route t) (t_current t)] \<rparr>"

text \<open>What a run of the pipeline of \<open>t\<close> from state \<open>h\<close> can come to.\<close>

definition pipeline_result ::
  "fn option \<Rightarrow> fn option \<Rightarrow> Transition \<Rightarrow> History \<Rightarrow> History \<times> outcome \<Rightarrow> bool" where
  "pipeline_result oc ua t h r =
     (if live t h then
        (\<exists>t'. same_transition t t' \<and>
           (r = (invoked (t_hook t') t h, Suspended t') \<or>
            r = (committed oc (t_route t) h, Committed t')))
      else r = (aborted ua Undefined [] [] h, Aborted))"

definition driver_only :: "call list \<Rightarrow> bool" where
  "driver_only cs =
     list_all (\<lambda>c. case c of EnsureURL b \<Rightarrow> True | Push v \<Rightarrow> True | Replace v \<Rightarrow> True
                        | _ \<Rightarrow> False) cs"

definition effect ::
  "fn option \<Rightarrow> fn option \<Rightarrow> Transition \<Rightarrow> History \<Rightarrow> History \<times> outcome \<Rightarrow> bool" where
  "effect oc ua t h r =
     ((\<exists>err pre post. r = (aborted ua err pre post h, Aborted) \<and> driver_only (pre @ post)) \<or>
      (live t h \<and>
       (\<exists>t'. same_transition t t' \<and>
          (r = (invoked (t_hook t') t h, Suspended t') \<or>
           r = (committed oc (t_route t) h, Committed t')))))"

text \<open>The first entry of a queue that is not empty, and the entries after it.\<close>

fun next_hook :: "guard option list \<Rightarrow> (guard \<times> guard option list) option" where
  "next_hook [] = None"
| "next_hook (None # queue) = next_hook queue"
| "next_hook (Some g # queue) = Some (g, queue)"

text \<open>
  What one event can do to the controller: nothing; a registration, which leaves the
  routes, the ready flag and the record of calls alone; a late \<^verbatim>\<open>onReady\<close>; an
  abort; the next hook of a transition in flight; a commit; the first hook of a new
  transition.
\<close>

inductive moves :: "event \<Rightarrow> Machine \<Rightarrow> Machine \<Rightarrow> bool" where
  Idle: "moves e m m"
| Quiet:
    "calls h' = calls (hist m) \<Longrightarrow> current h' = current (hist m) \<Longrightarrow>
     pending h' = pending (hist m) \<Longrightarrow> ready h' = ready (hist m) \<Longrightarrow>
     moves e m \<lparr> hist = h', waiting = waiting m \<rparr>"
| LateReady:
    "ready (hist m) \<Longrightarrow>
     moves e m \<lparr> hist = log [ReadyCb f None] (hist m), waiting = waiting m \<rparr>"
| Abort:
    "driver_only (pre @ post) \<Longrightarrow>
     moves e m \<lparr> hist = aborted ua err pre post (hist m), waiting = waiting m \<rparr>"
| Invoke:
    "t \<in> set (waiting m) \<Longrightarrow> live t (hist m) \<Longrightarrow> same_transition t t' \<Longrightarrow>
     moves e m \<lparr> hist = invoked (t_hook t') t (hist m), waiting = waiting m @ [t'] \<rparr>"
| Commit:
    "t \<in> set (waiting m) \<Longrightarrow> closures oc ua t \<Longrightarrow> live t (hist m) \<Longrightarrow>
     moves e m \<lparr> hist = committed oc (t_route t) (hist m), waiting = waiting m \<rparr>"
| Start:
    "e = Navigate match location oc ua \<Longrightarrow> closures oc ua t' \<Longrightarrow>
     t_route t' = match location (current (hist m)) \<Longrightarrow> t_current t' = current (hist m) \<Longrightarrow>
     moves e m \<lparr> hist = invoked (t_hook t') t' ((hist m)\<lparr> pending := Some (t_route t') \<rparr>),
                 waiting = waiting m @ [t'] \<rparr>"

text \<open>Every continuation handed out belongs to a transition that \<^verbatim>\<open>transitionTo\<close> started.\<close>

definition wf :: "Machine \<Rightarrow> bool" where
  "wf m = list_all (\<lambda>t. \<exists>oc ua. closures oc ua t) (waiting m)"

text \<open>The calls made since the record was \<open>h\<close>'s.\<close>

definition calls_since :: "History \<Rightarrow> History \<Rightarrow> call list" where
  "calls_since h h' = drop (length (calls h)) (calls h')"

text \<open>
  A call made on behalf of the transition to the route object \<open>a\<close>: one of its guards
  invoked, or the listener, an after hook, \<open>onComplete\<close> or a ready callback called with
  that route.
\<close>

definition on_behalf :: "nat \<Rightarrow> call \<Rightarrow> bool" where
  "on_behalf a c =
     (case c of
        CallGuard g r f \<Rightarrow> route_ref r = a
      | OnComplete f r \<Rightarrow> route_ref r = a
      | Listener f r c \<Rightarrow> route_ref r = a
      | AfterHook f r p c \<Rightarrow> route_ref r = a
      | ReadyCb f (Some r) \<Rightarrow> route_ref r = a
      | _ \<Rightarrow> False)"

text \<open>A call that flushes a queued ready callback or ready-error callback.\<close>

definition is_flush :: "call \<Rightarrow> bool" where
  "is_flush c =
     (case c of ReadyCb f (Some r) \<Rightarrow> True | ReadyErrorCb f e \<Rightarrow> True | _ \<Rightarrow> False)"

text \<open>
  Every transition whose route is still the pending one holds, as the \<^verbatim>\<open>current\<close> it
  captured when it started, the route that is committed now.
\<close>

definition sees_current :: "Machine \<Rightarrow> bool" where
  "sees_current m = list_all (\<lambda>t. live t (hist m) \<longrightarrow> t_current t = current (hist m)) (waiting m)"

text \<open>
  A location-like value: a string, or an object whose \<open>path\<close> or \<open>name\<close> is a string;
  and one that asks for replace-mode: an object with a truthy \<open>replace\<close>.
\<close>

definition location_like :: "jsval \<Rightarrow> bool" where
  "location_like to =
     (case to of
        Str s \<Rightarrow> True
      | Obj props \<Rightarrow>
          (case map_of props ''path'' of
             Some (Str s) \<Rightarrow> True
           | _ \<Rightarrow> (case map_of props ''name'' of Some (Str s) \<Rightarrow> True | _ \<Rightarrow> False))
      | _ \<Rightarrow> False)"

definition replace_requested :: "jsval \<Rightarrow> bool" where
  "replace_requested to =
     (case to of
        Obj props \<Rightarrow> (case map_of props ''replace'' of None \<Rightarrow> False | Some r \<Rightarrow> truthy r)
      | _ \<Rightarrow> False)"

text \<open>
  The guards a queue should hold, in the words of the specification: the functions a
  component definition declares under a guard name, in order; and for one named slot
  of a record, those functions bound to the slot's live instance, none when the slot
  has no instance.
\<close>

definition declared_guards :: "string \<Rightarrow> component \<Rightarrow> fn list" where
  "declared_guards name def =
     (case map_of (options def) name of
        None \<Rightarrow> []
      | Some (OneGuard g) \<Rightarrow> [g]
      | Some (GuardArray gs) \<Rightarrow> gs)"

definition slot_bound_guards :: "string \<Rightarrow> RouteRecord \<Rightarrow> string \<times> component \<Rightarrow> guard list" where
  "slot_bound_guards name m slot =
     (case map_of (instances m) (fst slot) of
        None \<Rightarrow> []
      | Some i \<Rightarrow> map (\<lambda>g. BoundRouteGuard g i) (declared_guards name (snd slot)))"

section \<open>A small route table\<close>

text \<open>
  A parent record with two children, each with one component slot \<^verbatim>\<open>default\<close> whose
  definition declares the three in-component guards, and routes over them. The
  application's functions are numbered.
\<close>

definition comp_of :: "fn \<Rightarrow> component" where
  "comp_of n = \<lparr> options = [(''beforeRouteLeave'', OneGuard n),
                             (''beforeRouteUpdate'', OneGuard (n + 1)),
                             (''beforeRouteEnter'', OneGuard (n + 2))] \<rparr>"

definition vm_of :: "nat \<Rightarrow> vm" where
  "vm_of n = \<lparr> inst_id = n, isBeingDestroyed = False \<rparr>"

definition recP :: RouteRecord where
  "recP = \<lparr> rec_ref = 1, components = [(''default'', comp_of 10)],
            instances = [(''default'', vm_of 1)], beforeEnter = None \<rparr>"

definition recA :: RouteRecord where
  "recA = \<lparr> rec_ref = 2, components = [(''default'', comp_of 20)],
            instances = [(''default'', vm_of 2)], beforeEnter = None \<rparr>"

definition recB :: RouteRecord where
  "recB = \<lparr> rec_ref = 3, components = [(''default'', comp_of 30)],
            instances = [], beforeEnter = Some 33 \<rparr>"

definition routeA :: Route where
  "routeA = \<lparr> route_ref = 1, path = ''/p/a'', hash = [], query = [], params = [],
              fullPath = ''/p/a'', matched = [recP, recA] \<rparr>"

definition routeB :: Route where
  "routeB = \<lparr> route_ref = 2, path = ''/p/b'', hash = [], query = [], params = [],
              fullPath = ''/p/b'', matched = [recP, recB] \<rparr>"

text \<open>A second match of the location of \<open>routeA\<close>: an equal route, another object.\<close>

definition routeA2 :: Route where
  "routeA2 = routeA\<lparr> route_ref := 3 \<rparr>"

definition router0 :: Router where
  "router0 = \<lparr> beforeHooks = [Some 100], resolveHooks = [Some 200], afterHooks = [Some 300],
               app = Some 0 \<rparr>"

text \<open>A controller whose committed route is \<open>routeA\<close>, after its first transition.\<close>

definition histA :: History where
  "histA = (new_History router0)\<lparr> current := routeA, ready := True, errorCbs := [400] \<rparr>"

text \<open>A route outside the parent record: leaving \<open>routeA\<close> for it deactivates both records.\<close>

definition routeC :: Route where
  "routeC = \<lparr> route_ref = 4, path = ''/b'', hash = [], query = [], params = [],
              fullPath = ''/b'', matched = [recB] \<rparr>"

text \<open>
  Two navigations in a row on a new controller, the second before any hook of the first
  has called its continuation; and what may follow: the first hook of the first
  navigation proceeds, a third navigation starts, the first hook proceeds once more.
\<close>

definition two_navigations :: "event list" where
  "two_navigations = [Navigate (\<lambda>l c. routeA) (Str ''/p/a'') (Some 5) (Some 6),
                      Navigate (\<lambda>l c. routeB) (Str ''/p/b'') (Some 7) (Some 8)]"

definition afterwards :: "event list" where
  "afterwards = [Continue 0 Undefined, Navigate (\<lambda>l c. routeC) (Str ''/b'') None None,
                 Continue 0 (Bool True)]"

text \<open>
  The first navigation of a new controller, to \<open>routeA\<close>: the state while it is in
  flight, and its transition waiting in its first hook and in its last one.
\<close>

definition hist_pendingA :: History where
  "hist_pendingA = (new_History router0)\<lparr> pending := Some routeA, readyCbs := [500],
                                          readyErrorCbs := [600] \<rparr>"

definition transA_first :: Transition where
  "transA_first = \<lparr> t_route = routeA, t_current = START,
       t_onComplete = transitionTo_onComplete (Some 5),
       t_onAbort = Some (transitionTo_onAbort (Some 6)),
       t_activated = [recP, recA], t_postEnterCbs = [],
       t_stage = PreResolve, t_hook = Hook 100,
       t_rest = [None, None, Some (ResolveAsyncComponents [recP, recA])] \<rparr>"

definition transA_last :: Transition where
  "transA_last = transA_first\<lparr> t_stage := EnterResolve, t_hook := Hook 200, t_rest := [] \<rparr>"

text \<open>
  A new controller on which ready callbacks are registered and a first navigation, to
  \<open>routeA\<close>, starts.
\<close>

definition first_navigation :: "event list" where
  "first_navigation = [OnReady 500 (Some 600),
                       Navigate (\<lambda>l c. routeA) (Str ''/p/a'') (Some 5) (Some 6)]"

text \<open>
  A router as its constructor leaves it, with no hook registered, once mounted; and what
  an application does on it: it registers two before hooks and two after hooks, a
  listener and ready callbacks, and navigates to \<open>routeA\<close>; the hooks of that
  navigation proceed up to the last one.
\<close>

definition router_mounted :: Router where
  "router_mounted = \<lparr> beforeHooks = [], resolveHooks = [], afterHooks = [], app = Some 0 \<rparr>"

definition registrations :: "event list" where
  "registrations = [Register Before 100, Register Before 101, Register After 300,
                    Register After 301, Listen 900, OnReady 500 (Some 600)]"

definition to_last_hook :: "event list" where
  "to_last_hook = registrations @
     [Navigate (\<lambda>l c. routeA) (Str ''/p/a'') (Some 5) (Some 6),
      Continue 0 Undefined, Continue 1 Undefined, Continue 2 Undefined, Continue 3 Undefined]"

text \<open>A mounted controller whose committed route is \<open>routeA\<close>.\<close>

definition machine_atA :: Machine where
  "machine_atA = \<lparr> hist = (new_History router_mounted)\<lparr> current := routeA, ready := True \<rparr>,
                   waiting = [] \<rparr>"

section \<open>Route diff: proofs\<close>

lemma first_diff_le: "first_diff xs ys \<le> min (length xs) (length ys)"
  by (induction xs ys rule: first_diff.induct) auto

lemma first_diff_agree: "j < first_diff xs ys \<Longrightarrow> xs ! j = ys ! j"
proof (induction xs ys arbitrary: j rule: first_diff.induct)
  case (1 x xs y ys)
  then show ?case by (cases j) (auto split: if_splits)
qed auto

lemma first_diff_differ:
  "first_diff xs ys < length xs \<Longrightarrow> first_diff xs ys < length ys
   \<Longrightarrow> xs ! first_diff xs ys \<noteq> ys ! first_diff xs ys"
  by (induction xs ys rule: first_diff.induct) (auto split: if_splits)

lemma first_diff_same: "first_diff xs xs = length xs"
  by (induction xs) auto

lemma first_diff_disjoint: "set xs \<inter> set ys = {} \<Longrightarrow> first_diff xs ys = 0"
  by (cases xs; cases ys) auto

lemma ref_at_eq_iff:
  "i < max (length c) (length n) \<Longrightarrow>
   (ref_at c i = ref_at n i) \<longleftrightarrow>
   (i < length c \<and> i < length n \<and> rec_ref (c ! i) = rec_ref (n ! i))"
  by (auto simp: ref_at_def)

lemma first_diff_drop_step:
  assumes "i < length xs" "i < length ys" "xs ! i = ys ! i"
  shows "first_diff (drop i xs) (drop i ys) = Suc (first_diff (drop (Suc i) xs) (drop (Suc i) ys))"
proof -
  have "drop i xs = xs ! i # drop (Suc i) xs" "drop i ys = ys ! i # drop (Suc i) ys"
    using assms(1,2) by (simp_all add: Cons_nth_drop_Suc)
  then show ?thesis using assms(3) by simp
qed

lemma first_diff_drop_stop:
  assumes "\<not> (i < length xs \<and> i < length ys \<and> xs ! i = ys ! i)"
  shows "first_diff (drop i xs) (drop i ys) = 0"
proof (cases "i < length xs \<and> i < length ys")
  case True
  then have "drop i xs = xs ! i # drop (Suc i) xs" "drop i ys = ys ! i # drop (Suc i) ys"
    by (simp_all add: Cons_nth_drop_Suc)
  then show ?thesis using assms True by simp
next
  case False
  then have "drop i xs = [] \<or> drop i ys = []" by auto
  then show ?thesis by (cases "drop i xs") auto
qed

lemma resolveQueue_loop_first_diff:
  "mx = max (length c) (length n) \<Longrightarrow>
   resolveQueue_loop c n mx i =
     i + first_diff (drop i (map rec_ref c)) (drop i (map rec_ref n))"
proof (induction c n mx i rule: resolveQueue_loop.induct)
  case (1 cur nxt mx i)
  show ?case
  proof (cases "i < mx")
    case False
    then have "drop i (map rec_ref cur) = []" using 1(2) by simp
    then show ?thesis using False by (simp add: resolveQueue_loop.simps[of cur nxt mx i])
  next
    case True
    show ?thesis
    proof (cases "ref_at cur i = ref_at nxt i")
      case same: True
      then have *: "i < length cur" "i < length nxt" "rec_ref (cur ! i) = rec_ref (nxt ! i)"
        using True 1(2) ref_at_eq_iff[of i cur nxt] by auto
      have "first_diff (drop i (map rec_ref cur)) (drop i (map rec_ref nxt))
            = Suc (first_diff (drop (Suc i) (map rec_ref cur)) (drop (Suc i) (map rec_ref nxt)))"
        by (rule first_diff_drop_step) (use * in simp_all)
      then show ?thesis using True same 1(1)[OF True _ 1(2)]
        by (simp add: resolveQueue_loop.simps[of cur nxt mx i])
    next
      case diff: False
      then have "\<not> (i < length cur \<and> i < length nxt \<and> rec_ref (cur ! i) = rec_ref (nxt ! i))"
        using True 1(2) ref_at_eq_iff[of i cur nxt] by auto
      then have "first_diff (drop i (map rec_ref cur)) (drop i (map rec_ref nxt)) = 0"
        by (intro first_diff_drop_stop) auto
      then show ?thesis using True diff
        by (simp add: resolveQueue_loop.simps[of cur nxt mx i])
    qed
  qed
qed

lemma resolveQueue_index:
  "resolveQueue_loop c n (max (length c) (length n)) 0
   = first_diff (map rec_ref c) (map rec_ref n)"
  using resolveQueue_loop_first_diff[of "max (length c) (length n)" c n 0] by simp


lemma rq_agree: 
  "j < first_diff (map rec_ref cur) (map rec_ref nxt) \<Longrightarrow> rec_ref (cur ! j) = rec_ref (nxt ! j)"
proof -
  assume a: "j < first_diff (map rec_ref cur) (map rec_ref nxt)"
  have le: "first_diff (map rec_ref cur) (map rec_ref nxt) \<le> min (length cur) (length nxt)"
    using first_diff_le[of "map rec_ref cur" "map rec_ref nxt"] by simp
  have "map rec_ref cur ! j = map rec_ref nxt ! j"
    using a by (rule first_diff_agree)
  then show ?thesis using a le by simp
qed

lemma rq_differ:
  "first_diff (map rec_ref cur) (map rec_ref nxt) < length cur \<Longrightarrow>
   first_diff (map rec_ref cur) (map rec_ref nxt) < length nxt \<Longrightarrow>
   rec_ref (cur ! first_diff (map rec_ref cur) (map rec_ref nxt))
     \<noteq> rec_ref (nxt ! first_diff (map rec_ref cur) (map rec_ref nxt))"
  using first_diff_differ[of "map rec_ref cur" "map rec_ref nxt"] by auto

lemma resolveQueue_eq:
  "resolveQueue cur nxt =
     \<lparr> updated = take (first_diff (map rec_ref cur) (map rec_ref nxt)) nxt,
       activated = drop (first_diff (map rec_ref cur) (map rec_ref nxt)) nxt,
       deactivated = drop (first_diff (map rec_ref cur) (map rec_ref nxt)) cur \<rparr>"
  by (simp add: resolveQueue_def resolveQueue_index Let_def)

lemma rq_same:
  assumes eq: "map rec_ref cur = map rec_ref nxt"
  shows "activated (resolveQueue cur nxt) = [] \<and> deactivated (resolveQueue cur nxt) = []"
proof -
  have len: "length cur = length nxt" using map_eq_imp_length_eq[OF eq] .
  have "first_diff (map rec_ref cur) (map rec_ref nxt) = length nxt"
    unfolding eq by (simp add: first_diff_same)
  then show ?thesis by (simp add: resolveQueue_eq len)
qed

lemma rq_disjoint:
  "set (map rec_ref cur) \<inter> set (map rec_ref nxt) = {} \<Longrightarrow> updated (resolveQueue cur nxt) = []"
  using first_diff_disjoint[of "map rec_ref cur" "map rec_ref nxt"]
  by (simp add: resolveQueue_eq)

section \<open>Aborts and commits in closed form\<close>

lemma abort_Undefined:
  "abort oa Undefined h = (case oa of None \<Rightarrow> h | Some f \<Rightarrow> f Undefined h)"
  by (simp add: abort_def isError_def)

lemma transitionTo_onAbort_falsy:
  "\<not> truthy err \<Longrightarrow>
   transitionTo_onAbort ua err h =
     h\<lparr> calls := calls h @ (case ua of None \<Rightarrow> [] | Some f \<Rightarrow> [OnAbort f err]) \<rparr>"
  by (simp add: transitionTo_onAbort_def log_def split: option.splits)

lemma abort_closed:
  "abort (Some (transitionTo_onAbort ua)) err h = aborted ua err [] [] h"
  by (cases "ready h")
     (auto simp: abort_def transitionTo_onAbort_def aborted_def abort_calls_def error_calls_def
      log_def Let_def split: option.splits)

lemma aborted_log_pre:
  "aborted ua err [] [] (log cs h) = aborted ua err cs [] h"
  by (simp add: aborted_def abort_calls_def error_calls_def log_def)

lemma log_aborted:
  "log cs (aborted ua err pre [] h) = aborted ua err pre cs h"
  by (simp add: aborted_def log_def)

lemma updateRoute_closed:
  "updateRoute route h = h\<lparr> current := route, calls := calls h @ updateRoute_calls route h \<rparr>"
  by (simp add: updateRoute_def updateRoute_calls_def log_def Let_def split: option.splits)

lemma commit_closed:
  "(let h1 = h\<lparr> pending := None \<rparr>;
        h2 = transitionTo_onComplete oc route h1
    in if app (router h2) \<noteq> None then log [NextTick] h2 else h2) = committed oc route h"
  by (cases "ready h")
     (auto simp: transitionTo_onComplete_def updateRoute_closed committed_def commit_calls_def
      updateRoute_calls_def log_def Let_def split: option.splits)

lemma iterator_result:
  "closures oc ua t \<Longrightarrow> pipeline_result oc ua t h (iterator t g rest h)"
  by (auto simp: pipeline_result_def iterator_def closures_def abort_closed live_def
      same_transition_def invoked_def log_def)

lemma commit_cb_result:
  assumes "closures oc ua t"
  shows "pipeline_result oc ua t h (commit_cb t h)"
proof (cases "live t h")
  case False
  then show ?thesis using assms
    by (simp add: pipeline_result_def commit_cb_def closures_def abort_closed live_def)
next
  case True
  have "commit_cb t h = (committed oc (t_route t) h, Committed t)"
    using True assms commit_closed[of h oc "t_route t"]
    by (simp add: commit_cb_def closures_def live_def Let_def)
  then show ?thesis using True
    by (auto simp: pipeline_result_def same_transition_def)
qed

lemma runQueue_result:
  assumes "closures oc ua t" and "pipeline_result oc ua t h (final h)"
  shows "pipeline_result oc ua t h (runQueue q (iterator t) final h)"
proof (induction q)
  case Nil
  then show ?case using assms by simp
next
  case (Cons x q)
  then show ?case using assms(1) by (cases x) (simp_all add: iterator_result)
qed

lemma pipeline_result_same:
  "same_transition t t2 \<Longrightarrow> pipeline_result oc ua t2 h r \<Longrightarrow> pipeline_result oc ua t h r"
  by (auto simp: pipeline_result_def same_transition_def live_def invoked_def)

lemma closures_same:
  "same_transition t t2 \<Longrightarrow> closures oc ua t \<Longrightarrow> closures oc ua t2"
  by (simp add: same_transition_def closures_def)

lemma enter_cb_result:
  assumes "closures oc ua t"
  shows "pipeline_result oc ua t h (enter_cb t h)"
proof -
  define t2 where "t2 = t\<lparr> t_postEnterCbs := [], t_stage := EnterResolve \<rparr>"
  have s: "same_transition t t2" by (simp add: same_transition_def t2_def)
  have c: "closures oc ua t2" using closures_same[OF s assms] .
  have "pipeline_result oc ua t2 h
          (runQueue (extractEnterGuards (t_activated t) @ map (map_option Hook) (resolveHooks (router h)))
             (iterator t2) (commit_cb t2) h)"
    by (rule runQueue_result[where final = "commit_cb t2", OF c commit_cb_result[OF c]])
  then show ?thesis
    using pipeline_result_same[OF s] by (simp add: enter_cb_def t2_def Let_def)
qed

lemma resume_result:
  assumes "closures oc ua t"
  shows "pipeline_result oc ua t h (resume t h)"
  using runQueue_result[where final = "enter_cb t" and h = h, OF assms enter_cb_result[OF assms]]
        runQueue_result[where final = "commit_cb t" and h = h, OF assms commit_cb_result[OF assms]]
  by (cases "t_stage t") (simp_all add: resume_def)

lemma effect_abortedI:
  "driver_only (pre @ post) \<Longrightarrow> effect oc ua t h (aborted ua err pre post h, Aborted)"
  unfolding effect_def by blast

lemma pipeline_effect:
  assumes "pipeline_result oc ua t h r"
  shows "effect oc ua t h r"
proof (cases "live t h")
  case True
  then show ?thesis using assms by (auto simp: pipeline_result_def effect_def)
next
  case False
  then have "r = (aborted ua Undefined [] [] h, Aborted)"
    using assms by (simp add: pipeline_result_def)
  then show ?thesis using effect_abortedI[of "[]" "[]"] by (simp add: driver_only_def)
qed

lemma effect_push_cb:
  assumes "effect oc ua t h (h', out)"
  shows "effect oc ua t h (h', push_cb c out)"
proof (cases out)
  case Aborted
  then show ?thesis using assms by (simp add: push_cb_def)
next
  case (Suspended t')
  then have "live t h \<and> same_transition t t' \<and> h' = invoked (t_hook t') t h"
    using assms by (auto simp: effect_def)
  then show ?thesis using Suspended
    by (auto simp: effect_def push_cb_def same_transition_def
        intro!: exI[of _ "t'\<lparr> t_postEnterCbs := t_postEnterCbs t' @ [c] \<rparr>"])
next
  case (Committed t')
  then have "live t h \<and> same_transition t t' \<and> h' = committed oc (t_route t) h"
    using assms by (auto simp: effect_def)
  then show ?thesis using Committed
    by (auto simp: effect_def push_cb_def same_transition_def
        intro!: exI[of _ "t'\<lparr> t_postEnterCbs := t_postEnterCbs t' @ [c] \<rparr>"])
qed

lemma resolution_effect:
  assumes c: "closures oc ua t" and r: "resolution t v h = Inr r"
  shows "effect oc ua t h r"
proof (cases "v = Bool False \<or> isError v")
  case True
  then have "r = (aborted ua v [EnsureURL (Some True)] [] h, Aborted)"
    using r c by (auto simp: resolution_def closures_def abort_closed aborted_log_pre)
  then show ?thesis
    using effect_abortedI[of "[EnsureURL (Some True)]" "[]"] by (simp add: driver_only_def)
next
  case False
  show ?thesis
  proof (cases "is_redirect v")
    case (Inl e)
    then show ?thesis using r False by (simp add: resolution_def)
  next
    case (Inr b)
    show ?thesis
    proof (cases b)
      case True
      then have "r = (aborted ua Undefined [] [if wants_replace v then Replace v else Push v] h,
                      Aborted)"
        using r c False Inr
        by (auto simp: resolution_def closures_def abort_closed log_aborted Let_def)
      then show ?thesis
        using effect_abortedI[of "[]" "[if wants_replace v then Replace v else Push v]"]
        by (simp add: driver_only_def)
    next
      case F: False
      then have "r = resume t h" using r False Inr by (simp add: resolution_def)
      then show ?thesis using pipeline_effect[OF resume_result[OF c]] by simp
    qed
  qed
qed

lemma continuation_effect:
  assumes c: "closures oc ua t" and r: "continuation t v h = Inr r"
  shows "effect oc ua t h r"
proof (cases "\<exists>g mt key. t_hook t = RouteEnterGuard g mt key")
  case False
  then have "continuation t v h = resolution t v h"
    by (cases "t_hook t") (auto simp: continuation_def)
  then show ?thesis using resolution_effect[OF c] r by simp
next
  case True
  then obtain g mt key where hk: "t_hook t = RouteEnterGuard g mt key" by blast
  show ?thesis
  proof (cases "resolution t v h")
    case (Inl e)
    then show ?thesis using r hk by (simp add: continuation_def)
  next
    case (Inr r0)
    obtain h0 out0 where r0: "r0 = (h0, out0)" by (cases r0)
    have e0: "effect oc ua t h (h0, out0)" using resolution_effect[OF c Inr] r0 by simp
    have "r = (h0, case v of Fun f \<Rightarrow> push_cb (f, mt, key) out0 | _ \<Rightarrow> out0)"
      using r hk Inr r0 by (simp add: continuation_def)
    then show ?thesis using e0 effect_push_cb[OF e0] by (cases v) simp_all
  qed
qed

lemma hook_threw_effect:
  assumes c: "closures oc ua t"
  shows "effect oc ua t h (hook_threw t e h)"
  using c effect_abortedI[of "[]" "[]" oc ua t h e]
  by (simp add: hook_threw_def closures_def abort_closed driver_only_def)

section \<open>Running a queue\<close>


lemma runQueue_next_hook:
  "runQueue q fn final = (case next_hook q of None \<Rightarrow> final | Some (g, rest) \<Rightarrow> fn g rest)"
  by (induction q rule: next_hook.induct) simp_all

lemma next_hook_None: "next_hook q = None \<longleftrightarrow> guards_of q = []"
  by (induction q rule: next_hook.induct) (simp_all add: guards_of_def)

lemma next_hook_Some: "next_hook q = Some (g, rest) \<Longrightarrow> guards_of q = g # guards_of rest"
  by (induction q rule: next_hook.induct) (simp_all add: guards_of_def)

lemma guards_of_append: "guards_of (xs @ ys) = guards_of xs @ guards_of ys"
  by (simp add: guards_of_def)

lemma called_guards_append: "called_guards (xs @ ys) = called_guards xs @ called_guards ys"
  by (simp add: called_guards_def)

lemma called_guards_map:
  "called_guards (map (\<lambda>g. CallGuard g r f) gs) = gs"
  by (induction gs) (simp_all add: called_guards_def)

lemma called_guards_Cons:
  "called_guards (CallGuard g r f # cs) = g # called_guards cs"
  by (simp add: called_guards_def)

lemma continuation_Undefined:
  "continuation t Undefined h = Inr (resume t h)"
  by (simp add: continuation_def resolution_def is_redirect_def typeof_def isError_def
      split: guard.splits prod.splits)

lemma resume_pre_live:
  assumes "t_stage t = PreResolve" "live t h" "next_hook (t_rest t) = Some (g, rest)"
  shows "resume t h = (invoked g t h, Suspended (t\<lparr> t_hook := g, t_rest := rest \<rparr>))"
  using assms
  by (simp add: resume_def runQueue_next_hook iterator_def live_def invoked_def log_def)

lemma advance_pre:
  "t_stage t = PreResolve \<Longrightarrow> live t h \<Longrightarrow> n \<le> length (guards_of (t_rest t)) \<Longrightarrow>
   calls (fst (advance (replicate n Undefined) (h, Suspended t))) =
     calls h @ map (\<lambda>g. CallGuard g (t_route t) (t_current t)) (take n (guards_of (t_rest t)))"
proof (induction n arbitrary: t h)
  case 0
  then show ?case by simp
next
  case (Suc n)
  then have "guards_of (t_rest t) \<noteq> []" by auto
  then obtain g rest where nh: "next_hook (t_rest t) = Some (g, rest)"
    using next_hook_None[of "t_rest t"] by (cases "next_hook (t_rest t)") auto
  have gs: "guards_of (t_rest t) = g # guards_of rest" using next_hook_Some[OF nh] .
  define t' where "t' = t\<lparr> t_hook := g, t_rest := rest \<rparr>"
  have r: "resume t h = (invoked g t h, Suspended t')"
    using resume_pre_live[OF Suc.prems(1,2) nh] by (simp add: t'_def)
  have 1: "t_stage t' = PreResolve" using Suc.prems(1) by (simp add: t'_def)
  have 2: "live t' (invoked g t h)" using Suc.prems(2) by (simp add: t'_def live_def invoked_def)
  have 3: "n \<le> length (guards_of (t_rest t'))" using Suc.prems(3) gs by (simp add: t'_def)
  have "calls (fst (advance (replicate n Undefined) (invoked g t h, Suspended t'))) =
        calls (invoked g t h) @
        map (\<lambda>g. CallGuard g (t_route t') (t_current t')) (take n (guards_of (t_rest t')))"
    by (rule Suc.IH[OF 1 2 3])
  then show ?case using r gs
    by (simp add: continuation_Undefined t'_def invoked_def)
qed

lemma flatten_append: "flatten (xs @ ys) = flatten xs @ flatten ys"
  by (simp add: flatten_def)

lemma flatten_concat: "flatten (concat xss) = concat (map flatten xss)"
  by (induction xss) (simp_all add: flatten_append, simp add: flatten_def)

lemma extractGuards_forward:
  "extractGuards records name bind False =
     concat (map (\<lambda>m. extractGuards [m] name bind False) records)"
  by (simp add: extractGuards_def flatMapComponents_def flatten_concat Let_def comp_def)

lemma extractGuards_reverse:
  "extractGuards records name bind True =
     concat (map (\<lambda>m. extractGuards [m] name bind True) (rev records))"
  by (simp add: extractGuards_def flatMapComponents_def flatten_concat Let_def comp_def
      rev_concat rev_map)

lemma confirmTransition_starts:
  assumes "\<not> (isSameRoute route (current h) \<and> length (matched route) = length (matched (current h)))"
    and "next_hook (preResolveQueue (router h) (resolveQueue (matched (current h)) (matched route)))
          = Some (g, rest)"
  shows "confirmTransition route oc oa h =
     (let d = resolveQueue (matched (current h)) (matched route);
          t = \<lparr> t_route = route, t_current = current h, t_onComplete = oc,
                t_onAbort = oa, t_activated = activated d, t_postEnterCbs = [],
                t_stage = PreResolve, t_hook = g, t_rest = rest \<rparr>
      in (invoked g t (h\<lparr> pending := Some route \<rparr>), Suspended t))"
  using assms
  by (simp add: confirmTransition_def Let_def runQueue_next_hook iterator_def invoked_def log_def)

lemma preResolveQueue_has_hook:
  "\<exists>g rest. next_hook (preResolveQueue r d) = Some (g, rest)"
proof -
  have "guards_of (preResolveQueue r d) \<noteq> []"
    by (simp add: preResolveQueue_def guards_of_append) (simp add: guards_of_def)
  then show ?thesis using next_hook_None[of "preResolveQueue r d"]
    by (cases "next_hook (preResolveQueue r d)") auto
qed

section \<open>The small route table, evaluated\<close>

lemma recP_sel [simp]:
  "rec_ref recP = 1" "components recP = [(''default'', comp_of 10)]"
  "instances recP = [(''default'', vm_of 1)]" "beforeEnter recP = None"
  by (simp_all add: recP_def)

lemma recA_sel [simp]:
  "rec_ref recA = 2" "components recA = [(''default'', comp_of 20)]"
  "instances recA = [(''default'', vm_of 2)]" "beforeEnter recA = None"
  by (simp_all add: recA_def)

lemma recB_sel [simp]:
  "rec_ref recB = 3" "components recB = [(''default'', comp_of 30)]"
  "instances recB = []" "beforeEnter recB = Some 33"
  by (simp_all add: recB_def)

lemma histA_sel [simp]:
  "current histA = routeA" "router histA = router0" "pending histA = None"
  "ready histA = True" "errorCbs histA = [400]" "readyCbs histA = []" "readyErrorCbs histA = []"
  "cb histA = None" "calls histA = []"
  by (simp_all add: histA_def new_History_def)

lemma extract_one_leave:
  "extractLeaveGuards [\<lparr> rec_ref = r, components = [(k, comp_of n)], instances = [(k, i)],
                          beforeEnter = b \<rparr>] = [Some (BoundRouteGuard n i)]"
  by (simp add: extractLeaveGuards_def extractGuards_def flatMapComponents_def flatten_def
      extractGuard_def bindGuard_def comp_of_def)

lemma diff_A_C:
  "resolveQueue (matched routeA) (matched routeC)
     = \<lparr> updated = [], activated = [recB], deactivated = [recP, recA] \<rparr>"
  by (simp add: resolveQueue_eq routeA_def routeC_def)

lemma leave_P_A:
  "extractLeaveGuards [recP, recA]
     = [Some (BoundRouteGuard 20 (vm_of 2)), Some (BoundRouteGuard 10 (vm_of 1))]"
  by (simp add: extractGuards_reverse[of "[recP, recA]"] extractLeaveGuards_def)
     (simp add: extractLeaveGuards_def[symmetric] recP_def recA_def extract_one_leave)

lemma routeA_sel [simp]:
  "route_ref routeA = 1" "path routeA = ''/p/a''" "hash routeA = []" "query routeA = []"
  "params routeA = []" "matched routeA = [recP, recA]"
  by (simp_all add: routeA_def)

lemma routeB_sel [simp]:
  "route_ref routeB = 2" "path routeB = ''/p/b''" "hash routeB = []" "query routeB = []"
  "params routeB = []" "matched routeB = [recP, recB]"
  by (simp_all add: routeB_def)

lemma routeC_sel [simp]:
  "route_ref routeC = 4" "path routeC = ''/b''" "hash routeC = []" "query routeC = []"
  "params routeC = []" "matched routeC = [recB]"
  by (simp_all add: routeC_def)

lemma START_sel [simp]:
  "route_ref START = 0" "path START = []" "hash START = []" "query START = []"
  "params START = []" "matched START = []"
  by (simp_all add: START_def)

lemma router0_sel [simp]:
  "beforeHooks router0 = [Some 100]" "resolveHooks router0 = [Some 200]"
  "afterHooks router0 = [Some 300]" "app router0 = Some 0"
  by (simp_all add: router0_def)

lemmas eval_defs =
  settle_def init_def new_History_def transitionTo_def confirmTransition_def
  isSameRoute_def obj_equal_def strip_trailing_slash_def resolveQueue_eq preResolveQueue_def
  extractLeaveGuards_def extractUpdateHooks_def extractEnterGuards_def extractGuards_def
  flatMapComponents_def flatten_def extractGuard_def bindGuard_def bindEnterGuard_def
  iterator_def log_def abort_def transitionTo_onAbort_def transitionTo_onComplete_def
  updateRoute_def continuation_def resolution_def is_redirect_def wants_replace_def
  typeof_def truthy_def isError_def get_prop_def resume_def enter_cb_def commit_cb_def
  push_cb_def hook_threw_def onReady_def Let_def comp_of_def

section \<open>The poll\<close>







section \<open>Every step is one of the moves\<close>


lemma transitionTo_short:
  assumes "isSameRoute (match location (current h)) (current h) \<and>
           length (matched (match location (current h))) = length (matched (current h))"
  shows "transitionTo match location oc ua h = (aborted ua Undefined [EnsureURL None] [] h, Aborted)"
  using assms
  by (simp add: transitionTo_def confirmTransition_def Let_def abort_closed aborted_log_pre)

lemma transitionTo_starts:
  assumes "\<not> (isSameRoute (match location (current h)) (current h) \<and>
           length (matched (match location (current h))) = length (matched (current h)))"
  shows "\<exists>t. closures oc ua t \<and> t_route t = match location (current h) \<and> t_current t = current h \<and>
             t_stage t = PreResolve \<and>
             transitionTo match location oc ua h =
               (invoked (t_hook t) t (h\<lparr> pending := Some (t_route t) \<rparr>), Suspended t)"
proof -
  define route where "route = match location (current h)"
  obtain g rest where nh:
    "next_hook (preResolveQueue (router h) (resolveQueue (matched (current h)) (matched route)))
       = Some (g, rest)"
    using preResolveQueue_has_hook by blast
  define t where "t = \<lparr> t_route = route, t_current = current h,
                t_onComplete = transitionTo_onComplete oc,
                t_onAbort = Some (transitionTo_onAbort ua),
                t_activated = activated (resolveQueue (matched (current h)) (matched route)),
                t_postEnterCbs = [], t_stage = PreResolve, t_hook = g, t_rest = rest \<rparr>"
  have "transitionTo match location oc ua h = (invoked g t (h\<lparr> pending := Some route \<rparr>), Suspended t)"
    using confirmTransition_starts[OF _ nh, of "transitionTo_onComplete oc"
        "Some (transitionTo_onAbort ua)"] assms
    by (simp add: transitionTo_def route_def t_def Let_def)
  moreover have "closures oc ua t" "t_route t = route" "t_current t = current h" "t_hook t = g"
    "t_stage t = PreResolve"
    by (simp_all add: t_def closures_def)
  ultimately show ?thesis unfolding route_def by (intro exI[of _ t]) simp
qed

lemma settle_Aborted: "settle m (h, Aborted) = \<lparr> hist = h, waiting = waiting m \<rparr>"
  by (simp add: settle_def)

lemma settle_Committed: "settle m (h, Committed t) = \<lparr> hist = h, waiting = waiting m \<rparr>"
  by (simp add: settle_def)

lemma settle_Suspended: "settle m (h, Suspended t) = \<lparr> hist = h, waiting = waiting m @ [t] \<rparr>"
  by (simp add: settle_def)

lemma effect_moves:
  assumes "t \<in> set (waiting m)" "closures oc ua t" "effect oc ua t (hist m) r"
  shows "moves e m (settle m r)"
proof -
  from assms(3) consider
      (a) err pre post where "r = (aborted ua err pre post (hist m), Aborted)" "driver_only (pre @ post)"
    | (i) t' where "live t (hist m)" "same_transition t t'"
        "r = (invoked (t_hook t') t (hist m), Suspended t')"
    | (c) t' where "live t (hist m)" "r = (committed oc (t_route t) (hist m), Committed t')"
    unfolding effect_def by blast
  then show ?thesis
  proof cases
    case a
    then show ?thesis using moves.Abort[of pre post e m ua err] by (simp add: settle_Aborted)
  next
    case i
    then show ?thesis using moves.Invoke[OF assms(1) i(1,2), of e] by (simp add: settle_Suspended)
  next
    case c
    then show ?thesis using moves.Commit[OF assms(1,2) c(1), of e] by (simp add: settle_Committed)
  qed
qed

lemma wf_nth: "wf m \<Longrightarrow> n < length (waiting m) \<Longrightarrow> \<exists>oc ua. closures oc ua (waiting m ! n)"
  by (simp add: wf_def list_all_length)

lemma machine_hist_update: "m\<lparr> hist := h' \<rparr> = \<lparr> hist = h', waiting = waiting m \<rparr>"
  by (cases m) simp

lemma quiet_moves:
  "calls h' = calls (hist m) \<Longrightarrow> current h' = current (hist m) \<Longrightarrow>
   pending h' = pending (hist m) \<Longrightarrow> ready h' = ready (hist m) \<Longrightarrow>
   moves e m (m\<lparr> hist := h' \<rparr>)"
  using moves.Quiet[of h' m e] by (simp add: machine_hist_update)

lemma step_moves:
  assumes "wf m"
  shows "moves e m (step e m)"
proof (cases e)
  case (Navigate match location oc ua)
  show ?thesis
  proof (cases "isSameRoute (match location (current (hist m))) (current (hist m)) \<and>
           length (matched (match location (current (hist m)))) = length (matched (current (hist m)))")
    case True
    show ?thesis
      using moves.Abort[of "[EnsureURL None]" "[]" e m ua Undefined]
      by (simp add: Navigate settle_Aborted driver_only_def
          transitionTo_short[where match = match and location = location and h = "hist m", OF True])
  next
    case False
    from transitionTo_starts[where match = match and location = location and h = "hist m",
        OF False, of oc ua] obtain t where t:
      "closures oc ua t" "t_route t = match location (current (hist m))"
      "t_current t = current (hist m)"
      "transitionTo match location oc ua (hist m) =
               (invoked (t_hook t) t ((hist m)\<lparr> pending := Some (t_route t) \<rparr>), Suspended t)"
      by blast
    show ?thesis
      using moves.Start[OF Navigate t(1,2,3)] t(4)
      by (simp add: Navigate settle_Suspended)
  qed
next
  case (Continue n v)
  show ?thesis
  proof (cases "n < length (waiting m)")
    case False
    then show ?thesis by (simp add: Continue moves.Idle)
  next
    case True
    then obtain oc ua where c: "closures oc ua (waiting m ! n)" using wf_nth[OF assms] by blast
    have mem: "waiting m ! n \<in> set (waiting m)" using True by simp
    show ?thesis
    proof (cases "continuation (waiting m ! n) v (hist m)")
      case (Inl x)
      then show ?thesis using True by (simp add: Continue moves.Idle)
    next
      case (Inr r)
      then show ?thesis
        using True effect_moves[OF mem c continuation_effect[OF c Inr], of e]
        by (simp add: Continue)
    qed
  qed
next
  case (Threw n x)
  show ?thesis
  proof (cases "n < length (waiting m)")
    case False
    then show ?thesis by (simp add: Threw moves.Idle)
  next
    case True
    then obtain oc ua where c: "closures oc ua (waiting m ! n)" using wf_nth[OF assms] by blast
    have mem: "waiting m ! n \<in> set (waiting m)" using True by simp
    show ?thesis
      using True effect_moves[OF mem c hook_threw_effect[OF c, of "hist m" x], of e]
      by (simp add: Threw)
  qed
next
  case (OnReady f errorCb)
  show ?thesis
  proof (cases "ready (hist m)")
    case True
    then show ?thesis using moves.LateReady[OF True, of e f]
      by (simp add: OnReady onReady_def machine_hist_update)
  next
    case False
    then show ?thesis
      using quiet_moves[of "onReady f errorCb (hist m)" m e]
      by (simp add: OnReady onReady_def Let_def split: option.splits)
  qed
next
  case (OnError f)
  then show ?thesis using quiet_moves[of "onError f (hist m)" m e] by (simp add: onError_def)
next
  case (Listen f)
  then show ?thesis using quiet_moves[of "listen f (hist m)" m e] by (simp add: listen_def)
next
  case (Register k f)
  then show ?thesis
    using quiet_moves[of "on_registry k (\<lambda>hooks. registerHook hooks f) (hist m)" m e]
    by (cases k) (simp_all add: on_registry_def)
next
  case (Unregister k f)
  then show ?thesis
    using quiet_moves[of "on_registry k (\<lambda>hooks. unregisterHook hooks f) (hist m)" m e]
    by (cases k) (simp_all add: on_registry_def)
qed

section \<open>Invariants of the controller\<close>


lemma wf_init: "wf (init r)"
  by (simp add: wf_def init_def)

lemma wf_step:
  assumes "wf m"
  shows "wf (step e m)"
  using step_moves[OF assms, of e]
proof cases
  case (Invoke t t')
  then have "\<exists>oc ua. closures oc ua t" using assms by (auto simp: wf_def list_all_iff)
  then have "\<exists>oc ua. closures oc ua t'" using Invoke(4) closures_same by blast
  then show ?thesis using assms Invoke(1) by (simp add: wf_def)
next
  case (Start match location oc ua t')
  then show ?thesis using assms by (auto simp: wf_def)
qed (use assms in \<open>simp_all add: wf_def\<close>)

lemma wf_run: "wf m \<Longrightarrow> wf (run es m)"
  by (induction es arbitrary: m) (simp_all add: wf_step)

lemma wf_reachable: "wf (run es (init r))"
  by (rule wf_run[OF wf_init])

lemma waiting_step:
  assumes "wf m"
  shows "\<exists>more. waiting (step e m) = waiting m @ more"
  using step_moves[OF assms, of e] by cases simp_all

lemma calls_aborted:
  "calls (aborted ua err pre post h) = calls h @ pre @ abort_calls ua err h @ post"
  by (simp add: aborted_def)

lemma calls_step:
  assumes "wf m"
  shows "calls (hist (step e m)) = calls (hist m) @ calls_since (hist m) (hist (step e m))"
  using step_moves[OF assms, of e]
  by cases (simp_all add: calls_since_def aborted_def committed_def invoked_def log_def)

lemma not_on_behalf_abort_calls: "list_all (\<lambda>c. \<not> on_behalf a c) (abort_calls ua err h)"
  by (simp add: abort_calls_def error_calls_def on_behalf_def list_all_iff split: option.splits)
     auto

lemma not_on_behalf_driver: "driver_only cs \<Longrightarrow> list_all (\<lambda>c. \<not> on_behalf a c) cs"
  by (auto simp: driver_only_def list_all_iff on_behalf_def split: call.splits)

lemma on_behalf_commit_calls:
  "route_ref r \<noteq> a \<Longrightarrow> list_all (\<lambda>c. \<not> on_behalf a c) (commit_calls oc r h)"
  by (auto simp: commit_calls_def updateRoute_calls_def on_behalf_def list_all_iff
      split: option.splits)

text \<open>One step keeps a superseded transition superseded.\<close>

lemma stale_step:
  assumes wf: "wf m"
    and p: "map_option route_ref (pending (hist m)) \<noteq> Some a"
    and c: "route_ref (current (hist m)) \<noteq> a"
    and nav: "\<And>match location oc ua. e = Navigate match location oc ua \<Longrightarrow>
                route_ref (match location (current (hist m))) \<noteq> a"
  shows "map_option route_ref (pending (hist (step e m))) \<noteq> Some a \<and>
         route_ref (current (hist (step e m))) \<noteq> a \<and>
         list_all (\<lambda>c. \<not> on_behalf a c) (calls_since (hist m) (hist (step e m)))"
  using step_moves[OF wf, of e]
proof cases
  case Idle
  then show ?thesis using p c by (simp add: calls_since_def)
next
  case (Quiet h')
  then show ?thesis using p c by (simp add: calls_since_def)
next
  case (LateReady f)
  then show ?thesis using p c by (simp add: calls_since_def log_def on_behalf_def)
next
  case (Abort pre post ua err)
  have "driver_only pre" "driver_only post" using Abort(2) by (simp_all add: driver_only_def)
  then show ?thesis using p c Abort(1)
    by (simp add: calls_since_def aborted_def not_on_behalf_abort_calls not_on_behalf_driver)
next
  case (Invoke t t')
  then have "route_ref (t_route t) \<noteq> a" using p by (auto simp: live_def)
  then show ?thesis using p c Invoke(1)
    by (simp add: calls_since_def invoked_def on_behalf_def)
next
  case (Commit t oc ua)
  then have "route_ref (t_route t) \<noteq> a" using p by (auto simp: live_def)
  then show ?thesis using p c Commit(1)
    by (simp add: calls_since_def committed_def on_behalf_commit_calls)
next
  case (Start match location oc ua t')
  then have "route_ref (t_route t') \<noteq> a" using nav by simp
  then show ?thesis using p c Start(1)
    by (simp add: calls_since_def invoked_def on_behalf_def)
qed


lemma calls_since_append: "calls h' = calls h @ cs \<Longrightarrow> calls_since h h' = cs"
  by (simp add: calls_since_def)

lemma calls_since_trans:
  assumes "calls h' = calls h @ calls_since h h'" "calls h'' = calls h' @ calls_since h' h''"
  shows "calls_since h h'' = calls_since h h' @ calls_since h' h''"
proof -
  define a where "a = calls_since h h'"
  define b where "b = calls_since h' h''"
  have "calls h'' = calls h @ (a @ b)" using assms unfolding a_def b_def by (metis append_assoc)
  then show ?thesis unfolding a_def[symmetric] b_def[symmetric] by (rule calls_since_append)
qed

lemma calls_run:
  "wf m \<Longrightarrow> calls (hist (run es m)) = calls (hist m) @ calls_since (hist m) (hist (run es m))"
proof (induction es arbitrary: m)
  case Nil
  then show ?case by (simp add: calls_since_def)
next
  case (Cons e es)
  have 1: "calls (hist (step e m)) = calls (hist m) @ calls_since (hist m) (hist (step e m))"
    by (rule calls_step[OF Cons.prems])
  have 2: "calls (hist (run es (step e m)))
           = calls (hist (step e m)) @ calls_since (hist (step e m)) (hist (run es (step e m)))"
    by (rule Cons.IH[OF wf_step[OF Cons.prems]])
  have "calls (hist (run es (step e m)))
        = calls (hist m) @ (calls_since (hist m) (hist (step e m)) @
            calls_since (hist (step e m)) (hist (run es (step e m))))"
    using 1 2 by (metis append_assoc)
  then show ?case using calls_since_trans[OF 1 2] by simp
qed

lemma fresh_avoids:
  assumes "fresh (e # es) m" "tA \<in> set (waiting m)" "e = Navigate match location oc ua"
  shows "route_ref (match location (current (hist m))) \<noteq> route_ref (t_route tA)"
  using assms by auto

lemma stale_run:
  assumes "wf m" "tA \<in> set (waiting m)"
    and "map_option route_ref (pending (hist m)) \<noteq> Some (route_ref (t_route tA))"
    and "route_ref (current (hist m)) \<noteq> route_ref (t_route tA)"
    and "fresh es m"
  shows "map_option route_ref (pending (hist (run es m))) \<noteq> Some (route_ref (t_route tA)) \<and>
         route_ref (current (hist (run es m))) \<noteq> route_ref (t_route tA) \<and>
         list_all (\<lambda>c. \<not> on_behalf (route_ref (t_route tA)) c)
           (calls_since (hist m) (hist (run es m)))"
  using assms
proof (induction es arbitrary: m)
  case Nil
  then show ?case by (simp add: calls_since_def)
next
  case (Cons e es)
  have s: "map_option route_ref (pending (hist (step e m))) \<noteq> Some (route_ref (t_route tA)) \<and>
         route_ref (current (hist (step e m))) \<noteq> route_ref (t_route tA) \<and>
         list_all (\<lambda>c. \<not> on_behalf (route_ref (t_route tA)) c)
           (calls_since (hist m) (hist (step e m)))"
    using stale_step[OF Cons.prems(1,3,4)] fresh_avoids[OF Cons.prems(5,2)] by blast
  have w: "wf (step e m)" by (rule wf_step[OF Cons.prems(1)])
  have mem: "tA \<in> set (waiting (step e m))"
    using waiting_step[OF Cons.prems(1), of e] Cons.prems(2) by auto
  have f: "fresh es (step e m)" using Cons.prems(5) by simp
  have r: "map_option route_ref (pending (hist (run es (step e m)))) \<noteq> Some (route_ref (t_route tA)) \<and>
         route_ref (current (hist (run es (step e m)))) \<noteq> route_ref (t_route tA) \<and>
         list_all (\<lambda>c. \<not> on_behalf (route_ref (t_route tA)) c)
           (calls_since (hist (step e m)) (hist (run es (step e m))))"
    using Cons.IH[OF w mem _ _ f] s by blast
  have "calls_since (hist m) (hist (run es (step e m)))
        = calls_since (hist m) (hist (step e m)) @
          calls_since (hist (step e m)) (hist (run es (step e m)))"
    by (rule calls_since_trans[OF calls_step[OF Cons.prems(1)] calls_run[OF w]])
  then show ?case using s r by simp
qed

lemma stale_continuation:
  assumes "closures oc ua t" "\<not> live t h" "continuation t v h = Inr (h', out)"
  shows "out = Aborted \<and> current h' = current h \<and> pending h' = pending h"
  using continuation_effect[OF assms(1,3)] assms(2)
  by (auto simp: effect_def aborted_def)

lemma pending_effect:
  assumes "effect oc ua t h (h', out)"
  shows "case out of Committed t' \<Rightarrow> live t h \<and> pending h' = None | _ \<Rightarrow> pending h' = pending h"
  using assms by (auto simp: effect_def aborted_def invoked_def committed_def)

lemma no_flush_driver: "driver_only cs \<Longrightarrow> filter is_flush cs = []"
  by (auto simp: driver_only_def list_all_iff is_flush_def filter_empty_conv split: call.splits)

lemma flush_abort_calls:
  "filter is_flush (abort_calls ua err h) =
     (if truthy err \<and> \<not> ready h then map (\<lambda>f. ReadyErrorCb f err) (readyErrorCbs h) else [])"
proof -
  have 1: "filter is_flush (error_calls err h) = []"
    by (auto simp: error_calls_def is_flush_def filter_empty_conv)
  have 2: "filter is_flush (case ua of None \<Rightarrow> [] | Some f \<Rightarrow> [OnAbort f err]) = []"
    by (simp add: is_flush_def split: option.splits)
  have 3: "filter is_flush (map (\<lambda>f. ReadyErrorCb f err) fs) = map (\<lambda>f. ReadyErrorCb f err) fs" for fs
    by (induction fs) (simp_all add: is_flush_def)
  show ?thesis using 1 2 3 by (simp add: abort_calls_def)
qed

lemma flush_commit_calls:
  "filter is_flush (commit_calls oc route h) =
     (if ready h then [] else map (\<lambda>f. ReadyCb f (Some route)) (readyCbs h))"
proof -
  have 1: "filter is_flush (updateRoute_calls route h) = []"
    by (auto simp: updateRoute_calls_def is_flush_def filter_empty_conv split: option.splits)
  have 2: "filter is_flush (case oc of None \<Rightarrow> [] | Some f \<Rightarrow> [OnComplete f route]) = []"
    by (simp add: is_flush_def split: option.splits)
  have 3: "filter is_flush (map (\<lambda>f. ReadyCb f (Some route)) fs) = map (\<lambda>f. ReadyCb f (Some route)) fs" for fs
    by (induction fs) (simp_all add: is_flush_def)
  show ?thesis using 1 2 3 by (simp add: commit_calls_def is_flush_def)
qed

lemma no_flush_iff: "list_all (\<lambda>c. \<not> is_flush c) cs \<longleftrightarrow> filter is_flush cs = []"
  by (simp add: list_all_iff filter_empty_conv)

lemma ready_step:
  assumes "wf m"
  shows "(ready (hist m) \<longrightarrow>
            ready (hist (step e m)) \<and>
            list_all (\<lambda>c. \<not> is_flush c) (calls_since (hist m) (hist (step e m)))) \<and>
         (\<not> ready (hist (step e m)) \<longrightarrow>
            list_all (\<lambda>c. \<not> is_flush c) (calls_since (hist m) (hist (step e m)))) \<and>
         (\<not> ready (hist m) \<and> ready (hist (step e m)) \<longrightarrow>
            (\<exists>t \<in> set (waiting m). \<exists>oc. live t (hist m) \<and>
                hist (step e m) = committed oc (t_route t) (hist m)) \<or>
            (\<exists>ua err pre post. truthy err \<and> hist (step e m) = aborted ua err pre post (hist m)))"
  using step_moves[OF assms, of e]
proof cases
  case Idle
  then show ?thesis by (simp add: calls_since_def)
next
  case (Quiet h')
  then show ?thesis by (simp add: calls_since_def)
next
  case (LateReady f)
  then show ?thesis by (simp add: calls_since_def log_def is_flush_def)
next
  case (Abort pre post ua err)
  have d: "filter is_flush pre = []" "filter is_flush post = []"
    using Abort(2) no_flush_driver by (simp_all add: driver_only_def)
  have cs: "calls_since (hist m) (hist (step e m)) = pre @ abort_calls ua err (hist m) @ post"
    using Abort(1) by (simp add: calls_since_def aborted_def)
  have r: "ready (hist (step e m)) = (ready (hist m) \<or> truthy err)"
    using Abort(1) by (simp add: aborted_def)
  have f: "filter is_flush (calls_since (hist m) (hist (step e m))) =
           (if truthy err \<and> \<not> ready (hist m)
            then map (\<lambda>f. ReadyErrorCb f err) (readyErrorCbs (hist m)) else [])"
    using d by (simp add: cs flush_abort_calls)
  have 1: "ready (hist m) \<longrightarrow>
            ready (hist (step e m)) \<and>
            list_all (\<lambda>c. \<not> is_flush c) (calls_since (hist m) (hist (step e m)))"
    using r f by (simp add: no_flush_iff)
  have 2: "\<not> ready (hist (step e m)) \<longrightarrow>
            list_all (\<lambda>c. \<not> is_flush c) (calls_since (hist m) (hist (step e m)))"
    using r f by (simp add: no_flush_iff)
  have 3: "\<not> ready (hist m) \<and> ready (hist (step e m)) \<longrightarrow>
            (\<exists>ua err pre post. truthy err \<and> hist (step e m) = aborted ua err pre post (hist m))"
    using r Abort(1) by auto
  show ?thesis using 1 2 3 by blast
next
  case (Invoke t t')
  then show ?thesis by (simp add: calls_since_def invoked_def is_flush_def)
next
  case (Commit t oc ua)
  have cs: "calls_since (hist m) (hist (step e m)) = commit_calls oc (t_route t) (hist m)"
    using Commit(1) by (simp add: calls_since_def committed_def)
  have r: "ready (hist (step e m))" using Commit(1) by (simp add: committed_def)
  have 3: "\<exists>t \<in> set (waiting m). \<exists>oc. live t (hist m) \<and>
                hist (step e m) = committed oc (t_route t) (hist m)"
    using Commit by auto
  have 1: "ready (hist m) \<longrightarrow>
            list_all (\<lambda>c. \<not> is_flush c) (calls_since (hist m) (hist (step e m)))"
    by (simp add: no_flush_iff cs flush_commit_calls)
  show ?thesis using 1 r 3 by blast
next
  case (Start match location oc ua t')
  then show ?thesis by (simp add: calls_since_def invoked_def is_flush_def)
qed

lemma sees_current_init: "sees_current (init r)"
  by (simp add: sees_current_def init_def)

lemma fresh_append: "fresh (es @ es') m \<longleftrightarrow> fresh es m \<and> fresh es' (run es m)"
  by (induction es arbitrary: m) auto

lemma sees_current_step:
  assumes wf: "wf m" and j: "sees_current m" and f: "fresh [e] m"
  shows "sees_current (step e m)"
  using step_moves[OF wf, of e]
proof cases
  case Idle
  then show ?thesis using j by simp
next
  case (Quiet h')
  then show ?thesis using j by (simp add: sees_current_def live_def)
next
  case (LateReady f)
  then show ?thesis using j by (simp add: sees_current_def live_def log_def)
next
  case (Abort pre post ua err)
  then show ?thesis using j by (simp add: sees_current_def live_def aborted_def)
next
  case (Invoke t t')
  have "t_current t = current (hist m)" using j Invoke(2,3) by (auto simp: sees_current_def list_all_iff)
  then have "t_current t' = current (hist m)" using Invoke(4) by (simp add: same_transition_def)
  then show ?thesis using j Invoke(1) by (simp add: sees_current_def live_def invoked_def)
next
  case (Commit t oc ua)
  then show ?thesis by (simp add: sees_current_def live_def committed_def list_all_iff)
next
  case (Start match location oc ua t')
  have "route_ref (t_route t') \<notin> set (map (\<lambda>t. route_ref (t_route t)) (waiting m))"
    using f Start(2,4) by simp
  then have "\<forall>t \<in> set (waiting m). route_ref (t_route t) \<noteq> route_ref (t_route t')"
    by (metis (mono_tags, lifting) image_eqI list.set_map)
  then show ?thesis using Start(1,5)
    by (auto simp: sees_current_def live_def invoked_def list_all_iff)
qed

lemma sees_current_run:
  "wf m \<Longrightarrow> sees_current m \<Longrightarrow> fresh es m \<Longrightarrow> sees_current (run es m)"
proof (induction es arbitrary: m)
  case Nil
  then show ?case by simp
next
  case (Cons e es)
  have "fresh [e] m" using Cons.prems(3) by simp
  then have "sees_current (step e m)" using sees_current_step[OF Cons.prems(1,2)] by blast
  then show ?case using Cons.IH[OF wf_step[OF Cons.prems(1)]] Cons.prems(3) by simp
qed

lemma current_step:
  assumes wf: "wf m"
  shows "current (hist (step e m)) = current (hist m) \<or>
         (\<exists>t \<in> set (waiting m). \<exists>oc. live t (hist m) \<and>
             hist (step e m) = committed oc (t_route t) (hist m))"
  using step_moves[OF wf, of e]
proof cases
  case (Commit t oc ua)
  then show ?thesis by auto
qed (simp_all add: log_def aborted_def invoked_def)

lemma no_guard_driver: "driver_only cs \<Longrightarrow> CallGuard g rt f \<notin> set cs"
  by (auto simp: driver_only_def list_all_iff)

lemma no_guard_abort_calls: "CallGuard g rt f \<notin> set (abort_calls ua err h)"
  by (auto simp: abort_calls_def error_calls_def split: option.splits)

lemma no_guard_commit_calls: "CallGuard g rt f \<notin> set (commit_calls oc route h)"
  by (auto simp: commit_calls_def updateRoute_calls_def split: option.splits)

lemma guard_sees_current:
  assumes wf: "wf m" and j: "sees_current m"
    and g: "CallGuard g rt f \<in> set (calls_since (hist m) (hist (step e m)))"
  shows "f = current (hist m) \<and> current (hist (step e m)) = current (hist m)"
  using step_moves[OF wf, of e]
proof cases
  case Idle
  then show ?thesis using g by (simp add: calls_since_def)
next
  case (Quiet h')
  then show ?thesis using g by (simp add: calls_since_def)
next
  case (LateReady f)
  then show ?thesis using g by (simp add: calls_since_def log_def)
next
  case (Abort pre post ua err)
  have "driver_only pre" "driver_only post" using Abort(2) by (simp_all add: driver_only_def)
  then show ?thesis using g Abort(1) no_guard_driver no_guard_abort_calls
    by (auto simp: calls_since_def aborted_def)
next
  case (Invoke t t')
  have "t_current t = current (hist m)" using j Invoke(2,3) by (auto simp: sees_current_def list_all_iff)
  then show ?thesis using g Invoke(1) by (simp add: calls_since_def invoked_def)
next
  case (Commit t oc ua)
  then show ?thesis using g no_guard_commit_calls by (simp add: calls_since_def committed_def)
next
  case (Start match location oc ua t')
  then show ?thesis using g by (simp add: calls_since_def invoked_def)
qed

lemma router_mounted_sel [simp]:
  "beforeHooks router_mounted = []" "resolveHooks router_mounted = []"
  "afterHooks router_mounted = []" "app router_mounted = Some 0"
  by (simp_all add: router_mounted_def)

text \<open>Registering hooks one after the other appends them, in that order.\<close>

lemma register_after_run:
  "hist (run (map (Register After) fs) m) =
     (hist m)\<lparr> router := (router (hist m))\<lparr> afterHooks := afterHooks (router (hist m)) @ map Some fs \<rparr> \<rparr>"
proof (induction fs arbitrary: m)
  case Nil
  then show ?case by simp
next
  case (Cons f fs)
  show ?case by (simp add: Cons on_registry_def registerHook_def)
qed

lemma register_before_run:
  "hist (run (map (Register Before) fs) m) =
     (hist m)\<lparr> router := (router (hist m))\<lparr> beforeHooks := beforeHooks (router (hist m)) @ map Some fs \<rparr> \<rparr>"
proof (induction fs arbitrary: m)
  case Nil
  then show ?case by simp
next
  case (Cons f fs)
  show ?case by (simp add: Cons on_registry_def registerHook_def)
qed

section \<open>Values other than null\<close>

lemma typeof_string: "typeof v = ''string'' \<longleftrightarrow> (\<exists>s. v = Str s)"
  by (cases v) (simp_all add: typeof_def)

lemma is_redirect_location_like:
  "to \<noteq> Null \<Longrightarrow> \<not> isError to \<Longrightarrow> is_redirect to = Inr (location_like to)"
proof (cases to)
  case (Obj props)
  show ?thesis
  proof (cases "map_of props ''path''")
    case None
    then show ?thesis using Obj
      by (cases "map_of props ''name''")
         (auto simp: is_redirect_def location_like_def typeof_def get_prop_def split: jsval.splits)
  next
    case (Some p)
    then show ?thesis using Obj
      by (cases "map_of props ''name''")
         (auto simp: is_redirect_def location_like_def typeof_def get_prop_def split: jsval.splits)
  qed
qed (simp_all add: is_redirect_def location_like_def typeof_def get_prop_def isError_def)

lemma wants_replace_requested:
  "location_like to \<Longrightarrow> wants_replace to = replace_requested to"
  by (cases to)
     (auto simp: wants_replace_def replace_requested_def location_like_def typeof_def get_prop_def
      truthy_def split: option.splits)

text \<open>
  Apart from \<^verbatim>\<open>null\<close>, the callback does with a value what is expected of it: abort
  after \<^verbatim>\<open>ensureURL(true)\<close> on \<^verbatim>\<open>false\<close> and on an error, abort and redirect on a
  location-like value, and go on with the queue on anything else.
\<close>

lemma resolution_values:
  assumes "to \<noteq> Null"
  shows "resolution t to h =
     (if to = Bool False \<or> isError to then
        Inr (abort (t_onAbort t) to (log [EnsureURL (Some True)] h), Aborted)
      else if location_like to then
        Inr (log [if replace_requested to then Replace to else Push to]
               (abort (t_onAbort t) Undefined h), Aborted)
      else Inr (resume t h))"
proof (cases "to = Bool False \<or> isError to")
  case True
  then show ?thesis by (auto simp: resolution_def)
next
  case False
  then have r: "is_redirect to = Inr (location_like to)"
    using is_redirect_location_like[OF assms] by simp
  show ?thesis using False r wants_replace_requested[of to]
    by (auto simp: resolution_def Let_def)
qed

section \<open>The guards of a queue\<close>

lemma guards_of_Cons_None [simp]: "guards_of (None # q) = guards_of q"
  by (simp add: guards_of_def)

lemma guards_of_Cons_Some [simp]: "guards_of (Some g # q) = g # guards_of q"
  by (simp add: guards_of_def)

lemma guards_of_Nil [simp]: "guards_of [] = []"
  by (simp add: guards_of_def)

lemma guards_of_map_Some: "guards_of (map (\<lambda>g. Some (f g)) gs) = map f gs"
  by (induction gs) simp_all

lemma guards_of_map_None: "guards_of (map (\<lambda>g. None) gs) = []"
  by (induction gs) simp_all

lemma guards_of_hooks:
  "guards_of (map (map_option Hook) hooks)
     = concat (map (\<lambda>hook. case hook of None \<Rightarrow> [] | Some f \<Rightarrow> [Hook f]) hooks)"
  by (induction hooks) (auto split: option.splits)

lemma guards_of_beforeEnter:
  "guards_of (map (\<lambda>m. map_option Hook (beforeEnter m)) ms)
     = concat (map (\<lambda>m. case beforeEnter m of None \<Rightarrow> [] | Some f \<Rightarrow> [Hook f]) ms)"
  by (induction ms) (auto split: option.splits)

text \<open>What \<^verbatim>\<open>extractGuards\<close> with \<^verbatim>\<open>bindGuard\<close> yields for one slot.\<close>

lemma slot_guards:
  "guards_of (flatten [case extractGuard def name of
                         None \<Rightarrow> NoGuard
                       | Some (GuardArray gs) \<Rightarrow> Several (map (\<lambda>g. bindGuard g (map_of (instances m) key)) gs)
                       | Some (OneGuard g) \<Rightarrow> One (bindGuard g (map_of (instances m) key))])
     = slot_bound_guards name m (key, def)"
proof (cases "map_of (instances m) key")
  case None
  then show ?thesis
    by (auto simp: flatten_def extractGuard_def bindGuard_def slot_bound_guards_def
        declared_guards_def guards_of_map_None split: option.splits guard_decl.splits)
next
  case (Some i)
  then show ?thesis
    by (auto simp: flatten_def extractGuard_def bindGuard_def slot_bound_guards_def
        declared_guards_def guards_of_map_Some split: option.splits guard_decl.splits)
qed

lemma flatten_Cons: "flatten (x # xs) = flatten [x] @ flatten xs"
  by (simp add: flatten_def)

lemma guards_of_flatten_map:
  "guards_of (flatten (map f xs)) = concat (map (\<lambda>x. guards_of (flatten [f x])) xs)"
proof (induction xs)
  case Nil
  then show ?case by (simp add: flatten_def)
next
  case (Cons a xs)
  have "guards_of (flatten (map f (a # xs)))
        = guards_of (flatten [f a]) @ guards_of (flatten (map f xs))"
    using flatten_Cons[of "f a" "map f xs"] by (simp add: guards_of_append)
  then show ?case using Cons by simp
qed

lemma guards_of_concat: "guards_of (concat qs) = concat (map guards_of qs)"
  by (induction qs) (simp_all add: guards_of_append)

lemma record_guards_forward:
  "guards_of (extractGuards [m] name (\<lambda>g inst match key. bindGuard g inst) False)
     = concat (map (slot_bound_guards name m) (components m))"
proof -
  have "guards_of (extractGuards [m] name (\<lambda>g inst match key. bindGuard g inst) False)
        = concat (map (\<lambda>slot. slot_bound_guards name m (fst slot, snd slot)) (components m))"
    unfolding extractGuards_def flatMapComponents_def Let_def
    by (simp add: guards_of_flatten_map slot_guards case_prod_beta)
  then show ?thesis by simp
qed

lemma record_guards_reverse:
  "guards_of (extractGuards [m] name (\<lambda>g inst match key. bindGuard g inst) True)
     = concat (map (slot_bound_guards name m) (rev (components m)))"
proof -
  have "guards_of (extractGuards [m] name (\<lambda>g inst match key. bindGuard g inst) True)
        = concat (map (\<lambda>slot. slot_bound_guards name m (fst slot, snd slot)) (rev (components m)))"
    unfolding extractGuards_def flatMapComponents_def Let_def
    by (simp add: guards_of_flatten_map slot_guards case_prod_beta rev_map)
  then show ?thesis by simp
qed

lemma leave_guards:
  "guards_of (extractLeaveGuards deact)
     = concat (map (\<lambda>m. concat (map (slot_bound_guards ''beforeRouteLeave'' m) (rev (components m))))
                   (rev deact))"
  unfolding extractLeaveGuards_def
  by (simp add: extractGuards_reverse[of deact] guards_of_concat comp_def record_guards_reverse)

lemma update_guards:
  "guards_of (extractUpdateHooks upd)
     = concat (map (\<lambda>m. concat (map (slot_bound_guards ''beforeRouteUpdate'' m) (components m))) upd)"
  unfolding extractUpdateHooks_def
  by (simp add: extractGuards_forward[of upd] guards_of_concat comp_def record_guards_forward)

lemma preResolve_run:
  assumes "\<not> (isSameRoute route (current h) \<and>
              length (matched route) = length (matched (current h)))"
    and n: "n < length (guards_of (preResolveQueue (router h)
                (resolveQueue (matched (current h)) (matched route))))"
  shows "called_guards (calls (fst (advance (replicate n Undefined)
                                       (confirmTransition route oc oa h))))
           = called_guards (calls h) @
             take (Suc n) (guards_of (preResolveQueue (router h)
                (resolveQueue (matched (current h)) (matched route))))"
proof -
  define d where "d = resolveQueue (matched (current h)) (matched route)"
  define queue where "queue = preResolveQueue (router h) d"
  obtain g rest where nh: "next_hook queue = Some (g, rest)"
    using preResolveQueue_has_hook[of "router h" d] by (auto simp: queue_def)
  have gs: "guards_of queue = g # guards_of rest" using next_hook_Some[OF nh] .
  define t where "t = \<lparr> t_route = route, t_current = current h, t_onComplete = oc,
                t_onAbort = oa, t_activated = activated d, t_postEnterCbs = [],
                t_stage = PreResolve, t_hook = g, t_rest = rest \<rparr>"
  define h1 where "h1 = invoked g t (h\<lparr> pending := Some route \<rparr>)"
  have start: "confirmTransition route oc oa h = (h1, Suspended t)"
    using confirmTransition_starts[OF assms(1), of g rest oc oa] nh
    by (simp add: queue_def d_def t_def h1_def Let_def)
  have 1: "t_stage t = PreResolve" by (simp add: t_def)
  have 2: "live t h1" by (simp add: t_def h1_def live_def invoked_def)
  have 3: "n \<le> length (guards_of (t_rest t))"
    using n gs by (simp add: t_def queue_def d_def)
  have "calls (fst (advance (replicate n Undefined) (h1, Suspended t))) =
        calls h1 @ map (\<lambda>g. CallGuard g (t_route t) (t_current t)) (take n (guards_of (t_rest t)))"
    by (rule advance_pre[OF 1 2 3])
  moreover have "calls h1 = calls h @ [CallGuard g (t_route t) (t_current t)]"
    by (simp add: h1_def invoked_def)
  moreover have "t_rest t = rest" by (simp add: t_def)
  ultimately show ?thesis using start gs
    unfolding d_def[symmetric] queue_def[symmetric]
    by (simp add: called_guards_append called_guards_map called_guards_Cons)
qed

lemma preResolve_guards:
  "guards_of (preResolveQueue r d) =
     concat (map (\<lambda>m. concat (map (slot_bound_guards ''beforeRouteLeave'' m) (rev (components m))))
                 (rev (deactivated d))) @
     concat (map (\<lambda>hook. case hook of None \<Rightarrow> [] | Some f \<Rightarrow> [Hook f]) (beforeHooks r)) @
     concat (map (\<lambda>m. concat (map (slot_bound_guards ''beforeRouteUpdate'' m) (components m)))
                 (updated d)) @
     concat (map (\<lambda>m. case beforeEnter m of None \<Rightarrow> [] | Some f \<Rightarrow> [Hook f]) (activated d)) @
     [ResolveAsyncComponents (activated d)]"
  by (simp add: preResolveQueue_def guards_of_append leave_guards update_guards guards_of_hooks
      guards_of_beforeEnter)

section \<open>The ready flag, operation by operation\<close>

lemma resolution_Null: "resolution t Null h = Inl TypeError"
  by (simp add: resolution_def is_redirect_def typeof_def get_prop_def isError_def)

lemma isError_truthy: "isError v \<Longrightarrow> truthy v"
  by (cases v) (simp_all add: isError_def truthy_def)

lemma flush_aborted:
  "driver_only (pre @ post) \<Longrightarrow>
   filter is_flush (calls_since h (aborted ua err pre post h))
     = (if truthy err \<and> \<not> ready h then map (\<lambda>f. ReadyErrorCb f err) (readyErrorCbs h) else [])"
  using no_flush_driver[of pre] no_flush_driver[of post]
  by (simp add: calls_since_def aborted_def flush_abort_calls driver_only_def)

lemma flush_committed:
  "filter is_flush (calls_since h (committed oc route h))
     = (if ready h then [] else map (\<lambda>f. ReadyCb f (Some route)) (readyCbs h))"
  by (simp add: calls_since_def committed_def flush_commit_calls)

lemma flush_invoked: "filter is_flush (calls_since h (invoked g t h)) = []"
  by (simp add: calls_since_def invoked_def is_flush_def)

text \<open>What a run of the pipeline does to the ready flag.\<close>

lemma ready_pipeline:
  assumes "pipeline_result oc ua t h (h', out)"
  shows "case out of
           Committed t' \<Rightarrow>
             ready h' \<and> filter is_flush (calls_since h h')
               = (if ready h then [] else map (\<lambda>f. ReadyCb f (Some (t_route t))) (readyCbs h))
         | Aborted \<Rightarrow> ready h' = ready h \<and> filter is_flush (calls_since h h') = []
         | Suspended t' \<Rightarrow> ready h' = ready h \<and> filter is_flush (calls_since h h') = []"
proof (cases "live t h")
  case True
  then consider t' where "h' = invoked (t_hook t') t h" "out = Suspended t'"
    | t' where "h' = committed oc (t_route t) h" "out = Committed t'"
    using assms by (auto simp: pipeline_result_def)
  then show ?thesis
  proof cases
    case 1
    then show ?thesis by (simp add: flush_invoked) (simp add: invoked_def)
  next
    case 2
    then show ?thesis by (simp add: flush_committed) (simp add: committed_def)
  qed
next
  case False
  then have "h' = aborted ua Undefined [] [] h" "out = Aborted"
    using assms by (simp_all add: pipeline_result_def)
  then show ?thesis
    using flush_aborted[of "[]" "[]" h ua Undefined]
    by (simp add: driver_only_def truthy_def) (simp add: aborted_def truthy_def)
qed

lemma ready_resolution:
  assumes c: "closures oc ua t" and r: "resolution t v h = Inr (h', out)"
  shows "case out of
           Committed t' \<Rightarrow>
             ready h' \<and> filter is_flush (calls_since h h')
               = (if ready h then [] else map (\<lambda>f. ReadyCb f (Some (t_route t))) (readyCbs h))
         | Aborted \<Rightarrow>
             ready h' = (ready h \<or> isError v) \<and> filter is_flush (calls_since h h')
               = (if isError v \<and> \<not> ready h then map (\<lambda>f. ReadyErrorCb f v) (readyErrorCbs h)
                  else [])
         | Suspended t' \<Rightarrow> ready h' = ready h \<and> filter is_flush (calls_since h h') = []"
proof -
  have nn: "v \<noteq> Null" using r resolution_Null[of t h] by auto
  note rv = resolution_values[OF nn, of t h]
  show ?thesis
  proof (cases "v = Bool False \<or> isError v")
    case True
    then have "h' = aborted ua v [EnsureURL (Some True)] [] h" "out = Aborted"
      using r rv c by (auto simp: closures_def abort_closed aborted_log_pre)
    moreover have "truthy v = isError v"
      using True isError_truthy[of v] by (auto simp: truthy_def isError_def)
    ultimately show ?thesis
      using flush_aborted[of "[EnsureURL (Some True)]" "[]" h ua v]
      by (simp add: driver_only_def) (simp add: aborted_def)
  next
    case False
    show ?thesis
    proof (cases "location_like v")
      case True
      then have "h' = aborted ua Undefined []
                        [if replace_requested v then Replace v else Push v] h" "out = Aborted"
        using r rv c False by (auto simp: closures_def abort_closed log_aborted)
      then show ?thesis
        using False flush_aborted[of "[]" "[if replace_requested v then Replace v else Push v]"
            h ua Undefined]
        by (simp add: driver_only_def truthy_def) (simp add: aborted_def truthy_def)
    next
      case F: False
      then have "resume t h = (h', out)" using r rv False by simp
      then have "pipeline_result oc ua t h (h', out)" using resume_result[OF c, of h] by simp
      from ready_pipeline[OF this] show ?thesis using False by (cases out) simp_all
    qed
  qed
qed


lemma ready_continuation:
  assumes c: "closures oc ua t" and r: "continuation t v h = Inr (h', out)"
  shows "case out of
           Committed t' \<Rightarrow>
             ready h' \<and> filter is_flush (calls_since h h')
               = (if ready h then [] else map (\<lambda>f. ReadyCb f (Some (t_route t))) (readyCbs h))
         | Aborted \<Rightarrow>
             ready h' = (ready h \<or> isError v) \<and> filter is_flush (calls_since h h')
               = (if isError v \<and> \<not> ready h then map (\<lambda>f. ReadyErrorCb f v) (readyErrorCbs h)
                  else [])
         | Suspended t' \<Rightarrow> ready h' = ready h \<and> filter is_flush (calls_since h h') = []"
proof (cases "\<exists>g mt key. t_hook t = RouteEnterGuard g mt key")
  case False
  then have "continuation t v h = resolution t v h"
    by (cases "t_hook t") (auto simp: continuation_def)
  then show ?thesis using ready_resolution[OF c] r by simp
next
  case True
  then obtain g mt key where hk: "t_hook t = RouteEnterGuard g mt key" by blast
  show ?thesis
  proof (cases "resolution t v h")
    case (Inl e)
    then show ?thesis using r hk by (simp add: continuation_def)
  next
    case (Inr r0)
    obtain h0 out0 where r0: "r0 = (h0, out0)" by (cases r0)
    have e0: "case out0 of
           Committed t' \<Rightarrow>
             ready h0 \<and> filter is_flush (calls_since h h0)
               = (if ready h then [] else map (\<lambda>f. ReadyCb f (Some (t_route t))) (readyCbs h))
         | Aborted \<Rightarrow>
             ready h0 = (ready h \<or> isError v) \<and> filter is_flush (calls_since h h0)
               = (if isError v \<and> \<not> ready h then map (\<lambda>f. ReadyErrorCb f v) (readyErrorCbs h)
                  else [])
         | Suspended t' \<Rightarrow> ready h0 = ready h \<and> filter is_flush (calls_since h h0) = []"
      using ready_resolution[OF c Inr[unfolded r0]] .
    have "h' = h0 \<and> out = (case v of Fun f \<Rightarrow> push_cb (f, mt, key) out0 | _ \<Rightarrow> out0)"
      using r hk Inr r0 by (simp add: continuation_def)
    then show ?thesis using e0
      by (cases out0; cases v) (simp_all add: push_cb_def)
  qed
qed

lemma ready_hook_threw:
  assumes c: "closures oc ua t"
  shows "ready (fst (hook_threw t x h)) = (ready h \<or> truthy x) \<and>
         filter is_flush (calls_since h (fst (hook_threw t x h)))
           = (if truthy x \<and> \<not> ready h then map (\<lambda>f. ReadyErrorCb f x) (readyErrorCbs h) else [])"
  using c flush_aborted[of "[]" "[]" h ua x]
  by (simp add: hook_threw_def closures_def abort_closed driver_only_def) (simp add: aborted_def)

lemma ready_transitionTo:
  "ready (fst (transitionTo match location oc ua h)) = ready h \<and>
   filter is_flush (calls_since h (fst (transitionTo match location oc ua h))) = []"
proof (cases "isSameRoute (match location (current h)) (current h) \<and>
           length (matched (match location (current h))) = length (matched (current h))")
  case True
  show ?thesis
    using transitionTo_short[where match = match and location = location and h = h, OF True, of oc ua]
      flush_aborted[of "[EnsureURL None]" "[]" h ua Undefined]
    by (simp add: driver_only_def truthy_def) (simp add: aborted_def truthy_def)
next
  case False
  from transitionTo_starts[where match = match and location = location and h = h, OF False, of oc ua]
  obtain t where
    "transitionTo match location oc ua h =
               (invoked (t_hook t) t (h\<lparr> pending := Some (t_route t) \<rparr>), Suspended t)"
    by blast
  then show ?thesis by (simp add: invoked_def calls_since_def is_flush_def)
qed

lemma onReady_closed:
  "onReady f errorCb h =
     (if ready h then h\<lparr> calls := calls h @ [ReadyCb f None] \<rparr>
      else h\<lparr> readyCbs := readyCbs h @ [f],
             readyErrorCbs := readyErrorCbs h @ (case errorCb of None \<Rightarrow> [] | Some c \<Rightarrow> [c]) \<rparr>)"
  by (simp add: onReady_def log_def Let_def split: option.splits)

text \<open>Which events can set the ready flag.\<close>

lemma ready_flip:
  assumes w: "wf m" and n: "\<not> ready (hist m)" and y: "ready (hist (step e m))"
  shows "(\<exists>n v. e = Continue n v \<and> n < length (waiting m) \<and>
            (isError v \<or> (\<exists>h2 t'. continuation (waiting m ! n) v (hist m) = Inr (h2, Committed t')))) \<or>
         (\<exists>n x. e = Threw n x \<and> n < length (waiting m) \<and> truthy x)"
proof (cases e)
  case (Navigate match location oc ua)
  then show ?thesis
    using n y ready_transitionTo[of match location oc ua "hist m"]
    by (cases "transitionTo match location oc ua (hist m)")
       (auto simp: settle_def split: outcome.splits)
next
  case (Continue k v)
  show ?thesis
  proof (cases "k < length (waiting m)")
    case False
    then show ?thesis using n y Continue by simp
  next
    case True
    obtain oc ua where c: "closures oc ua (waiting m ! k)" using wf_nth[OF w True] by blast
    show ?thesis
    proof (cases "continuation (waiting m ! k) v (hist m)")
      case (Inl a)
      then show ?thesis using n y Continue True by simp
    next
      case (Inr r)
      obtain h2 out where r: "r = (h2, out)" by (cases r)
      have h2: "hist (step e m) = h2" using Continue True Inr r
        by (cases out) (simp_all add: settle_def)
      from ready_continuation[OF c Inr[unfolded r]] n y h2
      have "isError v \<or> (\<exists>t'. out = Committed t')" by (cases out) auto
      then show ?thesis using Continue True Inr r by auto
    qed
  qed
next
  case (Threw k x)
  show ?thesis
  proof (cases "k < length (waiting m)")
    case False
    then show ?thesis using n y Threw by simp
  next
    case True
    obtain oc ua where c: "closures oc ua (waiting m ! k)" using wf_nth[OF w True] by blast
    have "hist (step e m) = fst (hook_threw (waiting m ! k) x (hist m))"
      using Threw True by (simp add: settle_def hook_threw_def)
    then have "truthy x" using ready_hook_threw[OF c, of x "hist m"] n y by simp
    then show ?thesis using Threw True by auto
  qed
next
  case (OnReady f errorCb)
  then show ?thesis using n y by (simp add: onReady_closed)
next
  case (OnError f)
  then show ?thesis using n y by (simp add: onError_def)
next
  case (Listen f)
  then show ?thesis using n y by (simp add: listen_def)
next
  case (Register k f)
  then show ?thesis using n y by (cases k) (simp_all add: on_registry_def)
next
  case (Unregister k f)
  then show ?thesis using n y by (cases k) (simp_all add: on_registry_def)
qed

section \<open>Order of the guards before resolution\<close>

text \<open>
  C1. When \<^verbatim>\<open>confirmTransition\<close> is not short-circuited, the hooks it invokes before
  resolution, one each time the last one proceeds, are exactly these, in this order: for
  the deactivated records taken in reverse, the functions their slots declare as
  \<^verbatim>\<open>beforeRouteLeave\<close>, bound to the slot's instance; the global before hooks in the
  order of their list; for the updated records in order, the functions their slots
  declare as \<^verbatim>\<open>beforeRouteUpdate\<close>, bound to the slot's instance; the
  \<^verbatim>\<open>beforeEnter\<close> of each activated record, in order; and the one step that resolves
  the async components of the activated records. So every leave guard is invoked before
  any global before hook. The list of before hooks is in the order of registration:
  registering appends.
\<close>

theorem preResolve_order:
  assumes "\<not> (isSameRoute route (current h) \<and>
              length (matched route) = length (matched (current h)))"
  shows "(let d = resolveQueue (matched (current h)) (matched route);
              expected =
                concat (map (\<lambda>m. concat (map (slot_bound_guards ''beforeRouteLeave'' m)
                                              (rev (components m))))
                            (rev (deactivated d))) @
                concat (map (\<lambda>hook. case hook of None \<Rightarrow> [] | Some f \<Rightarrow> [Hook f])
                            (beforeHooks (router h))) @
                concat (map (\<lambda>m. concat (map (slot_bound_guards ''beforeRouteUpdate'' m)
                                              (components m)))
                            (updated d)) @
                concat (map (\<lambda>m. case beforeEnter m of None \<Rightarrow> [] | Some f \<Rightarrow> [Hook f])
                            (activated d)) @
                [ResolveAsyncComponents (activated d)]
          in \<forall>n < length expected.
               called_guards (calls (fst (advance (replicate n Undefined)
                                            (confirmTransition route oc oa h))))
                 = called_guards (calls h) @ take (Suc n) expected) \<and>
         beforeHooks (router (hist (run (map (Register Before) fs) m0)))
           = beforeHooks (router (hist m0)) @ map Some fs"
proof -
  have reg: "beforeHooks (router (hist (run (map (Register Before) fs) m0)))
           = beforeHooks (router (hist m0)) @ map Some fs"
    by (simp add: register_before_run)
  show ?thesis
    unfolding Let_def preResolve_guards[symmetric]
    using preResolve_run[OF assms, of _ oc oa] reg by blast
qed


theorem preResolve_order_witness:
  "beforeHooks (router (hist (run (map (Register Before) [100, 101]) machine_atA)))
     = [Some 100, Some 101] \<and>
   \<not> (isSameRoute routeB (current (hist (run (map (Register Before) [100, 101]) machine_atA))) \<and>
       length (matched routeB)
         = length (matched (current (hist (run (map (Register Before) [100, 101]) machine_atA))))) \<and>
   called_guards (calls (fst (advance (replicate 5 Undefined)
      (confirmTransition routeB (transitionTo_onComplete None) None
         (hist (run (map (Register Before) [100, 101]) machine_atA))))))
     = [BoundRouteGuard 20 (vm_of 2), Hook 100, Hook 101, BoundRouteGuard 11 (vm_of 1), Hook 33,
        ResolveAsyncComponents [recB]] \<and>
   called_guards (calls (fst (advance (replicate 5 Undefined)
      (confirmTransition routeC (transitionTo_onComplete None) None
         (hist (run (map (Register Before) [100, 101]) machine_atA))))))
     = [BoundRouteGuard 20 (vm_of 2), BoundRouteGuard 10 (vm_of 1), Hook 100, Hook 101, Hook 33,
        ResolveAsyncComponents [recB]]"
proof -
  define H where "H = hist (run (map (Register Before) [100, 101]) machine_atA)"
  have H: "current H = routeA" "beforeHooks (router H) = [Some 100, Some 101]" "calls H = []"
    unfolding H_def
    by (simp_all add: machine_atA_def new_History_def on_registry_def registerHook_def)
  have nb: "\<not> (isSameRoute routeB (current H) \<and>
       length (matched routeB) = length (matched (current H)))"
    by (simp add: H isSameRoute_def strip_trailing_slash_def)
  have nc: "\<not> (isSameRoute routeC (current H) \<and>
       length (matched routeC) = length (matched (current H)))"
    by (simp add: H)
  have db: "resolveQueue (matched routeA) (matched routeB)
     = \<lparr> updated = [recP], activated = [recB], deactivated = [recA] \<rparr>"
    by (simp add: resolveQueue_eq)
  have b: "\<forall>n < 6. called_guards (calls (fst (advance (replicate n Undefined)
      (confirmTransition routeB (transitionTo_onComplete None) None H))))
     = take (Suc n) [BoundRouteGuard 20 (vm_of 2), Hook 100, Hook 101,
         BoundRouteGuard 11 (vm_of 1), Hook 33, ResolveAsyncComponents [recB]]"
    using preResolve_order[OF nb, of "transitionTo_onComplete None" None]
    unfolding Let_def H db route_diff.select_convs
    by (simp add: slot_bound_guards_def declared_guards_def comp_of_def called_guards_def)
  have c: "\<forall>n < 6. called_guards (calls (fst (advance (replicate n Undefined)
      (confirmTransition routeC (transitionTo_onComplete None) None H))))
     = take (Suc n) [BoundRouteGuard 20 (vm_of 2), BoundRouteGuard 10 (vm_of 1), Hook 100,
         Hook 101, Hook 33, ResolveAsyncComponents [recB]]"
    using preResolve_order[OF nc, of "transitionTo_onComplete None" None]
    unfolding Let_def H diff_A_C route_diff.select_convs
    by (simp add: slot_bound_guards_def declared_guards_def comp_of_def called_guards_def)
  have b5: "called_guards (calls (fst (advance (replicate 5 Undefined)
      (confirmTransition routeB (transitionTo_onComplete None) None H))))
     = take (Suc 5) [BoundRouteGuard 20 (vm_of 2), Hook 100, Hook 101,
         BoundRouteGuard 11 (vm_of 1), Hook 33, ResolveAsyncComponents [recB]]"
    using b by (rule allE[where x = 5]) simp
  have c5: "called_guards (calls (fst (advance (replicate 5 Undefined)
      (confirmTransition routeC (transitionTo_onComplete None) None H))))
     = take (Suc 5) [BoundRouteGuard 20 (vm_of 2), BoundRouteGuard 10 (vm_of 1), Hook 100,
         Hook 101, Hook 33, ResolveAsyncComponents [recB]]"
    using c by (rule allE[where x = 5]) simp
  show ?thesis
    unfolding H_def[symmetric] using H(2) nb b5 c5 by simp
qed

section \<open>A superseded transition\<close>

text \<open>
  C2. Let A be a transition that has been handed a continuation and has not committed,
  and let \<open>pending\<close> no longer be A's route object, because a transition B started
  since. Then whatever happens next (the matcher making a new route object for every
  navigation), \<open>pending\<close> is never A's route again, \<open>current\<close> never becomes A's
  route, and no call is made on A's behalf: no guard of A is invoked, and neither the
  listener, nor an after hook, nor A's \<open>onComplete\<close>, nor a ready callback is called
  with A's route. Whenever a hook of A calls its continuation, with any value, the
  callback raises or the run ends aborted, and \<open>current\<close> is left as it is.
\<close>

theorem superseded_never_commits:
  assumes "tA \<in> set (waiting (run es0 (init r)))"
    and "\<not> live tA (hist (run es0 (init r)))"
    and "route_ref (current (hist (run es0 (init r)))) \<noteq> route_ref (t_route tA)"
    and "fresh es (run es0 (init r))"
  shows "(let m = run es0 (init r); m' = run es m; a = route_ref (t_route tA) in
            \<not> live tA (hist m') \<and>
            route_ref (current (hist m')) \<noteq> a \<and>
            calls (hist m') = calls (hist m) @ calls_since (hist m) (hist m') \<and>
            list_all (\<lambda>c. \<not> on_behalf a c) (calls_since (hist m) (hist m')) \<and>
            (\<forall>t \<in> set (waiting m'). route_ref (t_route t) = a \<longrightarrow>
               (\<forall>v. case continuation t v (hist m') of
                       Inl x \<Rightarrow> True
                     | Inr (h', out) \<Rightarrow> out = Aborted \<and> current h' = current (hist m'))))"
proof -
  define m where "m = run es0 (init r)"
  define m' where "m' = run es m"
  define a where "a = route_ref (t_route tA)"
  have w: "wf m" unfolding m_def by (rule wf_reachable)
  have w': "wf m'" unfolding m'_def by (rule wf_run[OF w])
  have p: "map_option route_ref (pending (hist m)) \<noteq> Some (route_ref (t_route tA))"
    using assms(2) by (simp add: live_def m_def)
  have inv: "map_option route_ref (pending (hist m')) \<noteq> Some a \<and>
         route_ref (current (hist m')) \<noteq> a \<and>
         list_all (\<lambda>c. \<not> on_behalf a c) (calls_since (hist m) (hist m'))"
    unfolding m'_def a_def
    by (rule stale_run[OF w _ p]) (use assms in \<open>simp_all add: m_def\<close>)
  have 1: "\<not> live tA (hist m')" using inv by (simp add: live_def a_def)
  have 3: "calls (hist m') = calls (hist m) @ calls_since (hist m) (hist m')"
    unfolding m'_def by (rule calls_run[OF w])
  have 5: "\<forall>t \<in> set (waiting m'). route_ref (t_route t) = a \<longrightarrow>
               (\<forall>v. case continuation t v (hist m') of
                       Inl x \<Rightarrow> True
                     | Inr (h', out) \<Rightarrow> out = Aborted \<and> current h' = current (hist m'))"
  proof (intro ballI impI allI)
    fix t v assume t: "t \<in> set (waiting m')" and ta: "route_ref (t_route t) = a"
    obtain oc ua where c: "closures oc ua t" using w' t by (auto simp: wf_def list_all_iff)
    have nl: "\<not> live t (hist m')" using inv ta by (simp add: live_def)
    show "case continuation t v (hist m') of
                       Inl x \<Rightarrow> True
                     | Inr (h', out) \<Rightarrow> out = Aborted \<and> current h' = current (hist m')"
      using stale_continuation[OF c nl] by (auto split: sum.splits)
  qed
  show ?thesis
    unfolding Let_def m_def[symmetric] m'_def[symmetric] a_def[symmetric]
    using 1 inv 3 5 by blast
qed

theorem superseded_never_commits_witness:
  "waiting (run two_navigations (init router0)) ! 0
     \<in> set (waiting (run two_navigations (init router0))) \<and>
   t_route (waiting (run two_navigations (init router0)) ! 0) = routeA \<and>
   \<not> live (waiting (run two_navigations (init router0)) ! 0)
          (hist (run two_navigations (init router0))) \<and>
   fresh afterwards (run two_navigations (init router0)) \<and>
   route_ref (current (hist (run afterwards (run two_navigations (init router0))))) \<noteq> 1 \<and>
   list_all (\<lambda>c. \<not> on_behalf 1 c)
     (calls_since (hist (run two_navigations (init router0)))
        (hist (run afterwards (run two_navigations (init router0)))))"
proof -
  define m where "m = run two_navigations (init router0)"
  define tA where "tA = waiting m ! 0"
  have w: "waiting m =
     [\<lparr>t_route = routeA, t_current = START,
         t_onComplete = transitionTo_onComplete (Some 5),
         t_onAbort = Some (transitionTo_onAbort (Some 6)),
         t_activated = [recP, recA], t_postEnterCbs = [],
         t_stage = PreResolve, t_hook = Hook 100,
         t_rest = [None, None, Some (ResolveAsyncComponents [recP, recA])]\<rparr>,
      \<lparr>t_route = routeB, t_current = START,
         t_onComplete = transitionTo_onComplete (Some 7),
         t_onAbort = Some (transitionTo_onAbort (Some 8)),
         t_activated = [recP, recB], t_postEnterCbs = [],
         t_stage = PreResolve, t_hook = Hook 100,
         t_rest = [None, Some (Hook 33), Some (ResolveAsyncComponents [recP, recB])]\<rparr>]"
    unfolding m_def by (simp add: two_navigations_def eval_defs)
  have h: "hist m = \<lparr>router = router0, current = START, pending = Some routeB, cb = None,
        ready = False, readyCbs = [], readyErrorCbs = [], errorCbs = [],
        calls = [CallGuard (Hook 100) routeA START, CallGuard (Hook 100) routeB START]\<rparr>"
    unfolding m_def by (simp add: two_navigations_def eval_defs)
  have r: "t_route tA = routeA" by (simp add: tA_def w)
  have 1: "tA \<in> set (waiting (run two_navigations (init router0)))"
    unfolding m_def[symmetric] by (simp add: tA_def w)
  have 2: "\<not> live tA (hist (run two_navigations (init router0)))"
    unfolding m_def[symmetric] by (simp add: live_def r h)
  have 3: "route_ref (current (hist (run two_navigations (init router0)))) \<noteq> route_ref (t_route tA)"
    unfolding m_def[symmetric] by (simp add: r h)
  have 4: "fresh afterwards (run two_navigations (init router0))"
    unfolding m_def[symmetric] afterwards_def
    by (simp add: machine_hist_update w h eval_defs)
  show ?thesis
    using superseded_never_commits[OF 1 2 3 4] 1 2 4 r
    unfolding Let_def m_def[symmetric] tA_def[symmetric]
    by simp
qed

section \<open>The three segments of a route diff\<close>

text \<open>
  C3. \<^verbatim>\<open>resolveQueue\<close> is a function of the two matched sequences. With \<open>i\<close> the first
  index at which they differ by reference (every index below \<open>i\<close> agrees, index \<open>i\<close>
  differs when both sequences reach it, and \<open>i\<close> is the shorter length otherwise), it
  returns \<open>updated = next[0..i)\<close>, \<open>activated = next[i..)\<close>, \<open>deactivated = current[i..)\<close>.
  So \<open>updated @ activated\<close> is the next sequence, identical sequences give empty
  \<open>activated\<close> and \<open>deactivated\<close>, and disjoint sequences give empty \<open>updated\<close>.
\<close>

theorem resolveQueue_partition:
  "(let i = first_diff (map rec_ref cur) (map rec_ref nxt); d = resolveQueue cur nxt in
     i \<le> min (length cur) (length nxt) \<and>
     (\<forall>j<i. rec_ref (cur ! j) = rec_ref (nxt ! j)) \<and>
     (i < length cur \<and> i < length nxt \<longrightarrow> rec_ref (cur ! i) \<noteq> rec_ref (nxt ! i)) \<and>
     d = \<lparr> updated = take i nxt, activated = drop i nxt, deactivated = drop i cur \<rparr> \<and>
     updated d @ activated d = nxt \<and>
     (map rec_ref cur = map rec_ref nxt \<longrightarrow> activated d = [] \<and> deactivated d = []) \<and>
     (set (map rec_ref cur) \<inter> set (map rec_ref nxt) = {} \<longrightarrow> updated d = []))"
  unfolding Let_def
proof (intro conjI allI impI)
  show "first_diff (map rec_ref cur) (map rec_ref nxt) \<le> min (length cur) (length nxt)"
    using first_diff_le[of "map rec_ref cur" "map rec_ref nxt"] by simp
next
  fix j assume "j < first_diff (map rec_ref cur) (map rec_ref nxt)"
  then show "rec_ref (cur ! j) = rec_ref (nxt ! j)" by (rule rq_agree)
next
  assume "first_diff (map rec_ref cur) (map rec_ref nxt) < length cur \<and>
          first_diff (map rec_ref cur) (map rec_ref nxt) < length nxt"
  then show "rec_ref (cur ! first_diff (map rec_ref cur) (map rec_ref nxt))
     \<noteq> rec_ref (nxt ! first_diff (map rec_ref cur) (map rec_ref nxt))"
    using rq_differ by blast
next
  show "resolveQueue cur nxt =
     \<lparr> updated = take (first_diff (map rec_ref cur) (map rec_ref nxt)) nxt,
       activated = drop (first_diff (map rec_ref cur) (map rec_ref nxt)) nxt,
       deactivated = drop (first_diff (map rec_ref cur) (map rec_ref nxt)) cur \<rparr>"
    by (rule resolveQueue_eq)
next
  show "updated (resolveQueue cur nxt) @ activated (resolveQueue cur nxt) = nxt"
    by (simp add: resolveQueue_eq)
next
  assume "map rec_ref cur = map rec_ref nxt"
  then show "activated (resolveQueue cur nxt) = []" using rq_same by blast
next
  assume "map rec_ref cur = map rec_ref nxt"
  then show "deactivated (resolveQueue cur nxt) = []" using rq_same by blast
next
  assume "set (map rec_ref cur) \<inter> set (map rec_ref nxt) = {}"
  then show "updated (resolveQueue cur nxt) = []" by (rule rq_disjoint)
qed

theorem resolveQueue_partition_witness:
  "resolveQueue [recP, recA] [recP, recB]
     = \<lparr> updated = [recP], activated = [recB], deactivated = [recA] \<rparr> \<and>
   activated (resolveQueue [recP, recA] [recP, recA]) = [] \<and>
   deactivated (resolveQueue [recP, recA] [recP, recA]) = [] \<and>
   updated (resolveQueue [recA] [recB]) = []"
  using resolveQueue_partition[of "[recP, recA]" "[recP, recB]"]
        resolveQueue_partition[of "[recP, recA]" "[recP, recA]"]
        resolveQueue_partition[of "[recA]" "[recB]"]
  by (simp add: Let_def recP_def recA_def recB_def)

section \<open>The value a guard resolves with\<close>

text \<open>
  C4, at \<^verbatim>\<open>next(null)\<close>. \<^verbatim>\<open>null\<close> is neither \<^verbatim>\<open>false\<close>, nor an error, nor a string,
  nor an object with a \<open>path\<close> or a \<open>name\<close>, so the pipeline should go on to the next
  entry. But \<^verbatim>\<open>typeof null\<close> is \<^verbatim>\<open>'object'\<close>, so the callback reads \<^verbatim>\<open>to.path\<close> and
  raises a \<^verbatim>\<open>TypeError\<close>: the pipeline does not go on.
\<close>

theorem resolution_null_throws:
  "resolution t Null h = Inl TypeError \<and> continuation t Null h = Inl TypeError"
  by (simp add: resolution_def continuation_def is_redirect_def typeof_def get_prop_def
      isError_def split: guard.splits)

section \<open>The no-op navigation\<close>

text \<open>
  C5. When the candidate route is the same as the committed route (\<open>isSameRoute\<close>) and
  both have as many matched records, \<^verbatim>\<open>confirmTransition\<close> calls \<^verbatim>\<open>ensureURL()\<close> and
  aborts with no error value: only \<open>onAbort\<close> is called, with \<^verbatim>\<open>undefined\<close>. Through
  \<^verbatim>\<open>transitionTo\<close> nothing else happens: no guard is invoked, no \<^verbatim>\<open>onError\<close> listener
  is called, and \<open>current\<close>, \<open>pending\<close> and \<open>ready\<close> stay as they are.
\<close>

theorem noop_short_circuit:
  assumes "isSameRoute route (current h)"
    and "length (matched route) = length (matched (current h))"
  shows "confirmTransition route oc oa h =
           (case oa of None \<Rightarrow> log [EnsureURL None] h
                     | Some f \<Rightarrow> f Undefined (log [EnsureURL None] h), Aborted) \<and>
         (match location (current h) = route \<longrightarrow>
          transitionTo match location onComplete onAbort h =
           (h\<lparr> calls := calls h @ EnsureURL None #
                   (case onAbort of None \<Rightarrow> [] | Some f \<Rightarrow> [OnAbort f Undefined]) \<rparr>,
            Aborted))"
  using assms
  by (simp add: transitionTo_def confirmTransition_def abort_Undefined
      transitionTo_onAbort_falsy truthy_def log_def Let_def split: option.splits)

theorem noop_short_circuit_witness:
  "isSameRoute routeA2 (current histA) \<and>
   length (matched routeA2) = length (matched (current histA)) \<and>
   transitionTo (\<lambda>l c. routeA2) (Str ''/p/a'') (Some 5) (Some 6) histA =
     (histA\<lparr> calls := [EnsureURL None, OnAbort 6 Undefined] \<rparr>, Aborted)"
proof -
  have 1: "isSameRoute routeA2 (current histA)"
    by (simp add: isSameRoute_def routeA2_def routeA_def histA_def obj_equal_def)
  have 2: "length (matched routeA2) = length (matched (current histA))"
    by (simp add: routeA2_def routeA_def histA_def)
  show ?thesis
    using 1 2 noop_short_circuit[OF 1 2, where match = "\<lambda>l c. routeA2"
        and location = "Str ''/p/a''" and onComplete = "Some 5" and onAbort = "Some 6"]
    by (simp add: histA_def new_History_def)
qed

section \<open>The pending route\<close>

text \<open>
  C6 as stated fails: an abort does not clear \<open>pending\<close>. On a new controller a
  navigation to \<open>routeA\<close> starts and its first hook resolves with \<^verbatim>\<open>false\<close>: the
  transition is aborted, it is not outstanding any more, and \<open>pending\<close> is still its
  route.
\<close>

theorem pending_counterexample:
  "snd (advance [Bool False]
          (transitionTo (\<lambda>l c. routeA) (Str ''/p/a'') (Some 5) (Some 6) (new_History router0)))
     = Aborted \<and>
   pending (fst (advance [Bool False]
          (transitionTo (\<lambda>l c. routeA) (Str ''/p/a'') (Some 5) (Some 6) (new_History router0))))
     = Some routeA"
  by (simp add: eval_defs)

text \<open>
  C6, amended. A \<^verbatim>\<open>transitionTo\<close> call that is short-circuited leaves \<open>pending\<close> as it
  is; any other sets \<open>pending\<close> to its route and waits in its first hook. After that,
  whenever a hook calls its continuation or throws, \<open>pending\<close> is cleared if the run
  commits (and then it was this transition's route), and is left as it is otherwise: an
  abort never clears it.
\<close>

theorem pending_lifecycle:
  "(case transitionTo match location oc ua h of
      (h', out) \<Rightarrow>
        if isSameRoute (match location (current h)) (current h) \<and>
           length (matched (match location (current h))) = length (matched (current h))
        then out = Aborted \<and> pending h' = pending h
        else (\<exists>t. out = Suspended t) \<and> pending h' = Some (match location (current h))) \<and>
   (closures oc ua t \<longrightarrow>
      (case continuation t v h of
         Inl x \<Rightarrow> True
       | Inr (h', out) \<Rightarrow>
           (case out of
              Committed t' \<Rightarrow> live t h \<and> pending h' = None
            | _ \<Rightarrow> pending h' = pending h))) \<and>
   (closures oc ua t \<longrightarrow>
      snd (hook_threw t e h) = Aborted \<and> pending (fst (hook_threw t e h)) = pending h)"
proof (intro conjI impI)
  show "case transitionTo match location oc ua h of
      (h', out) \<Rightarrow>
        if isSameRoute (match location (current h)) (current h) \<and>
           length (matched (match location (current h))) = length (matched (current h))
        then out = Aborted \<and> pending h' = pending h
        else (\<exists>t. out = Suspended t) \<and> pending h' = Some (match location (current h))"
  proof (cases "isSameRoute (match location (current h)) (current h) \<and>
           length (matched (match location (current h))) = length (matched (current h))")
    case True
    show ?thesis
      using True transitionTo_short[where match = match and location = location and h = h, OF True]
      by (simp add: aborted_def)
  next
    case False
    from transitionTo_starts[where match = match and location = location and h = h, OF False, of oc ua]
    obtain t where "t_route t = match location (current h)"
      "transitionTo match location oc ua h =
               (invoked (t_hook t) t (h\<lparr> pending := Some (t_route t) \<rparr>), Suspended t)"
      by blast
    then show ?thesis using False by (simp add: invoked_def)
  qed
next
  assume c: "closures oc ua t"
  show "case continuation t v h of
         Inl x \<Rightarrow> True
       | Inr (h', out) \<Rightarrow>
           (case out of
              Committed t' \<Rightarrow> live t h \<and> pending h' = None
            | _ \<Rightarrow> pending h' = pending h)"
  proof (cases "continuation t v h")
    case (Inl a)
    then show ?thesis by simp
  next
    case (Inr r)
    obtain h' out where r: "r = (h', out)" by (cases r)
    show ?thesis using pending_effect[OF continuation_effect[OF c Inr[unfolded r]]] Inr r by simp
  qed
next
  assume c: "closures oc ua t"
  then show "snd (hook_threw t e h) = Aborted" by (simp add: hook_threw_def)
next
  assume c: "closures oc ua t"
  then show "pending (fst (hook_threw t e h)) = pending h"
    by (simp add: hook_threw_def closures_def abort_closed aborted_def)
qed

theorem pending_lifecycle_witness:
  "closures (Some 5) (Some 6) transA_first \<and>
   transitionTo (\<lambda>l c. routeA) (Str ''/p/a'') (Some 5) (Some 6)
       ((new_History router0)\<lparr> readyCbs := [500], readyErrorCbs := [600] \<rparr>)
     = (invoked (Hook 100) transA_first hist_pendingA, Suspended transA_first) \<and>
   continuation transA_first (Bool False) hist_pendingA
     = Inr (aborted (Some 6) (Bool False) [EnsureURL (Some True)] [] hist_pendingA, Aborted) \<and>
   pending (aborted (Some 6) (Bool False) [EnsureURL (Some True)] [] hist_pendingA) = Some routeA \<and>
   closures (Some 5) (Some 6) transA_last \<and>
   continuation transA_last Undefined hist_pendingA
     = Inr (committed (Some 5) routeA hist_pendingA, Committed transA_last) \<and>
   pending (committed (Some 5) routeA hist_pendingA) = None"
proof -
  have c1: "closures (Some 5) (Some 6) transA_first"
    by (simp add: closures_def transA_first_def)
  have c2: "closures (Some 5) (Some 6) transA_last"
    by (simp add: closures_def transA_last_def transA_first_def)
  have s: "transitionTo (\<lambda>l c. routeA) (Str ''/p/a'') (Some 5) (Some 6)
       ((new_History router0)\<lparr> readyCbs := [500], readyErrorCbs := [600] \<rparr>)
     = (invoked (Hook 100) transA_first hist_pendingA, Suspended transA_first)"
    by (simp add: eval_defs invoked_def transA_first_def hist_pendingA_def)
  have a: "continuation transA_first (Bool False) hist_pendingA
     = Inr (aborted (Some 6) (Bool False) [EnsureURL (Some True)] [] hist_pendingA, Aborted)"
    by (simp add: eval_defs aborted_def abort_calls_def error_calls_def transA_first_def
        hist_pendingA_def)
  have k: "continuation transA_last Undefined hist_pendingA
     = Inr (committed (Some 5) routeA hist_pendingA, Committed transA_last)"
    by (simp add: eval_defs committed_def commit_calls_def updateRoute_calls_def transA_last_def
        transA_first_def hist_pendingA_def)
  show ?thesis
    using c1 c2 s a k
      pending_lifecycle[where match = "\<lambda>l c. routeA" and location = "Str ''/p/a''"
        and oc = "Some 5" and ua = "Some 6"
        and h = "(new_History router0)\<lparr> readyCbs := [500], readyErrorCbs := [600] \<rparr>"]
      pending_lifecycle[where oc = "Some 5" and ua = "Some 6" and t = transA_first
        and v = "Bool False" and h = hist_pendingA]
      pending_lifecycle[where oc = "Some 5" and ua = "Some 6" and t = transA_last
        and v = Undefined and h = hist_pendingA]
    by (simp add: aborted_def committed_def hist_pendingA_def live_def)
qed

section \<open>The ready flag\<close>

text \<open>
  C7 as stated fails: the first resolution of a transition need not set the ready flag.
  On a new controller the first navigation is aborted by its first hook resolving with
  \<^verbatim>\<open>false\<close>: the flag stays false, and an \<^verbatim>\<open>onReady\<close> callback registered after
  that is queued, not called.
\<close>

theorem ready_counterexample:
  "snd (advance [Bool False]
          (transitionTo (\<lambda>l c. routeA) (Str ''/p/a'') (Some 5) (Some 6) (new_History router0)))
     = Aborted \<and>
   \<not> ready (fst (advance [Bool False]
          (transitionTo (\<lambda>l c. routeA) (Str ''/p/a'') (Some 5) (Some 6) (new_History router0)))) \<and>
   calls (onReady 7 None (fst (advance [Bool False]
          (transitionTo (\<lambda>l c. routeA) (Str ''/p/a'') (Some 5) (Some 6) (new_History router0)))))
     = calls (fst (advance [Bool False]
          (transitionTo (\<lambda>l c. routeA) (Str ''/p/a'') (Some 5) (Some 6) (new_History router0))))"
  by (simp add: eval_defs)

text \<open>
  C7, amended. In every state a controller can reach: once the ready flag is true it
  stays true and no queued ready or ready-error callback is called any more; a step that
  leaves the flag false calls none either; and the flag goes from false to true only when
  a hook's continuation is called with an error value or commits the transition, or when
  a hook has thrown a truthy value. When a continuation is called, a commit sets the flag
  and, if it was false, calls the \<open>readyCbs\<close>, each with the route; an abort sets it
  exactly when the value is an error and then, if it was false, calls the
  \<open>readyErrorCbs\<close>, each with the error, while an abort on \<^verbatim>\<open>false\<close>, a redirect or
  a superseded transition leaves the flag as it is; a hook invoked next leaves it as it
  is. A thrown value sets the flag, and flushes the \<open>readyErrorCbs\<close>, exactly when it
  is truthy. \<^verbatim>\<open>transitionTo\<close> itself, short-circuited or not, leaves the flag alone.
  \<^verbatim>\<open>onReady\<close> calls the callback at once when the flag is true, and queues it, with
  the error callback when given, while the flag is false.
\<close>

theorem ready_lifecycle:
  "(let m = run es (init r); h = hist m; h' = hist (step e m) in
      (ready h \<longrightarrow> ready h' \<and> filter is_flush (calls_since h h') = []) \<and>
      (\<not> ready h' \<longrightarrow> filter is_flush (calls_since h h') = []) \<and>
      (\<not> ready h \<and> ready h' \<longrightarrow>
         (\<exists>n v. e = Continue n v \<and> n < length (waiting m) \<and>
            (isError v \<or>
             (\<exists>h2 t'. continuation (waiting m ! n) v h = Inr (h2, Committed t')))) \<or>
         (\<exists>n x. e = Threw n x \<and> n < length (waiting m) \<and> truthy x)) \<and>
      (\<forall>n < length (waiting m). \<forall>v.
         case continuation (waiting m ! n) v h of
           Inl x \<Rightarrow> True
         | Inr (h2, out) \<Rightarrow>
             (case out of
                Committed t' \<Rightarrow>
                  ready h2 \<and>
                  filter is_flush (calls_since h h2)
                    = (if ready h then []
                       else map (\<lambda>f. ReadyCb f (Some (t_route (waiting m ! n)))) (readyCbs h))
              | Aborted \<Rightarrow>
                  ready h2 = (ready h \<or> isError v) \<and>
                  filter is_flush (calls_since h h2)
                    = (if isError v \<and> \<not> ready h
                       then map (\<lambda>f. ReadyErrorCb f v) (readyErrorCbs h) else [])
              | Suspended t' \<Rightarrow>
                  ready h2 = ready h \<and> filter is_flush (calls_since h h2) = [])) \<and>
      (\<forall>n < length (waiting m). \<forall>x.
         ready (fst (hook_threw (waiting m ! n) x h)) = (ready h \<or> truthy x) \<and>
         filter is_flush (calls_since h (fst (hook_threw (waiting m ! n) x h)))
           = (if truthy x \<and> \<not> ready h
              then map (\<lambda>f. ReadyErrorCb f x) (readyErrorCbs h) else [])) \<and>
      (\<forall>match location oc ua.
         ready (fst (transitionTo match location oc ua h)) = ready h \<and>
         filter is_flush (calls_since h (fst (transitionTo match location oc ua h))) = []) \<and>
      (\<forall>f errorCb.
         onReady f errorCb h =
           (if ready h then h\<lparr> calls := calls h @ [ReadyCb f None] \<rparr>
            else h\<lparr> readyCbs := readyCbs h @ [f],
                   readyErrorCbs := readyErrorCbs h @
                     (case errorCb of None \<Rightarrow> [] | Some c \<Rightarrow> [c]) \<rparr>)))"
proof -
  define m where "m = run es (init r)"
  have w: "wf m" unfolding m_def by (rule wf_reachable)
  have 1: "ready (hist m) \<longrightarrow>
             ready (hist (step e m)) \<and> filter is_flush (calls_since (hist m) (hist (step e m))) = []"
    using ready_step[OF w, of e] by (simp add: no_flush_iff)
  have 2: "\<not> ready (hist (step e m)) \<longrightarrow>
             filter is_flush (calls_since (hist m) (hist (step e m))) = []"
    using ready_step[OF w, of e] by (simp add: no_flush_iff)
  have 3: "\<not> ready (hist m) \<and> ready (hist (step e m)) \<longrightarrow>
         (\<exists>n v. e = Continue n v \<and> n < length (waiting m) \<and>
            (isError v \<or>
             (\<exists>h2 t'. continuation (waiting m ! n) v (hist m) = Inr (h2, Committed t')))) \<or>
         (\<exists>n x. e = Threw n x \<and> n < length (waiting m) \<and> truthy x)"
    using ready_flip[OF w, of e] by blast
  have 4: "\<forall>n < length (waiting m). \<forall>v.
         case continuation (waiting m ! n) v (hist m) of
           Inl x \<Rightarrow> True
         | Inr (h2, out) \<Rightarrow>
             (case out of
                Committed t' \<Rightarrow>
                  ready h2 \<and>
                  filter is_flush (calls_since (hist m) h2)
                    = (if ready (hist m) then []
                       else map (\<lambda>f. ReadyCb f (Some (t_route (waiting m ! n)))) (readyCbs (hist m)))
              | Aborted \<Rightarrow>
                  ready h2 = (ready (hist m) \<or> isError v) \<and>
                  filter is_flush (calls_since (hist m) h2)
                    = (if isError v \<and> \<not> ready (hist m)
                       then map (\<lambda>f. ReadyErrorCb f v) (readyErrorCbs (hist m)) else [])
              | Suspended t' \<Rightarrow>
                  ready h2 = ready (hist m) \<and> filter is_flush (calls_since (hist m) h2) = [])"
  proof (intro allI impI)
    fix n v assume n: "n < length (waiting m)"
    obtain oc ua where c: "closures oc ua (waiting m ! n)" using wf_nth[OF w n] by blast
    show "case continuation (waiting m ! n) v (hist m) of
           Inl x \<Rightarrow> True
         | Inr (h2, out) \<Rightarrow>
             (case out of
                Committed t' \<Rightarrow>
                  ready h2 \<and>
                  filter is_flush (calls_since (hist m) h2)
                    = (if ready (hist m) then []
                       else map (\<lambda>f. ReadyCb f (Some (t_route (waiting m ! n)))) (readyCbs (hist m)))
              | Aborted \<Rightarrow>
                  ready h2 = (ready (hist m) \<or> isError v) \<and>
                  filter is_flush (calls_since (hist m) h2)
                    = (if isError v \<and> \<not> ready (hist m)
                       then map (\<lambda>f. ReadyErrorCb f v) (readyErrorCbs (hist m)) else [])
              | Suspended t' \<Rightarrow>
                  ready h2 = ready (hist m) \<and> filter is_flush (calls_since (hist m) h2) = [])"
    proof (cases "continuation (waiting m ! n) v (hist m)")
      case (Inl a)
      then show ?thesis by simp
    next
      case (Inr r)
      obtain h2 out where r: "r = (h2, out)" by (cases r)
      show ?thesis using ready_continuation[OF c Inr[unfolded r]] Inr r by simp
    qed
  qed
  have 5: "\<forall>n < length (waiting m). \<forall>x.
         ready (fst (hook_threw (waiting m ! n) x (hist m))) = (ready (hist m) \<or> truthy x) \<and>
         filter is_flush (calls_since (hist m) (fst (hook_threw (waiting m ! n) x (hist m))))
           = (if truthy x \<and> \<not> ready (hist m)
              then map (\<lambda>f. ReadyErrorCb f x) (readyErrorCbs (hist m)) else [])"
  proof (intro allI impI)
    fix n x assume n: "n < length (waiting m)"
    obtain oc ua where c: "closures oc ua (waiting m ! n)" using wf_nth[OF w n] by blast
    show "ready (fst (hook_threw (waiting m ! n) x (hist m))) = (ready (hist m) \<or> truthy x) \<and>
         filter is_flush (calls_since (hist m) (fst (hook_threw (waiting m ! n) x (hist m))))
           = (if truthy x \<and> \<not> ready (hist m)
              then map (\<lambda>f. ReadyErrorCb f x) (readyErrorCbs (hist m)) else [])"
      by (rule ready_hook_threw[OF c])
  qed
  have 6: "\<forall>match location oc ua.
         ready (fst (transitionTo match location oc ua (hist m))) = ready (hist m) \<and>
         filter is_flush (calls_since (hist m) (fst (transitionTo match location oc ua (hist m)))) = []"
    using ready_transitionTo by blast
  have 7: "\<forall>f errorCb.
         onReady f errorCb (hist m) =
           (if ready (hist m) then (hist m)\<lparr> calls := calls (hist m) @ [ReadyCb f None] \<rparr>
            else (hist m)\<lparr> readyCbs := readyCbs (hist m) @ [f],
                   readyErrorCbs := readyErrorCbs (hist m) @
                     (case errorCb of None \<Rightarrow> [] | Some c \<Rightarrow> [c]) \<rparr>)"
    using onReady_closed by blast
  show ?thesis
    unfolding Let_def m_def[symmetric]
    using 1 2 3 4 5 6 7 by blast
qed


theorem ready_lifecycle_witness:
  "\<not> ready (hist (run first_navigation (init router0))) \<and>
   ready (hist (step (Continue 0 (Error ''boom'')) (run first_navigation (init router0)))) \<and>
   filter is_flush
     (calls_since (hist (run first_navigation (init router0)))
        (hist (step (Continue 0 (Error ''boom'')) (run first_navigation (init router0)))))
     = [ReadyErrorCb 600 (Error ''boom'')] \<and>
   \<not> ready (hist (step (Continue 0 (Bool False)) (run first_navigation (init router0)))) \<and>
   calls_since (hist (run first_navigation (init router0)))
        (hist (step (Continue 0 (Bool False)) (run first_navigation (init router0))))
     = [EnsureURL (Some True), OnAbort 6 (Bool False)] \<and>
   readyCbs (onReady 7 (Some 8) (hist (run first_navigation (init router0)))) = [500, 7] \<and>
   readyErrorCbs (onReady 7 (Some 8) (hist (run first_navigation (init router0)))) = [600, 8] \<and>
   calls (onReady 7 (Some 8) (hist (run first_navigation (init router0))))
     = calls (hist (run first_navigation (init router0))) \<and>
   calls_since (hist (run (first_navigation @ [Continue 0 (Error ''boom'')]) (init router0)))
     (hist (step (OnReady 7 (Some 8))
          (run (first_navigation @ [Continue 0 (Error ''boom'')]) (init router0))))
     = [ReadyCb 7 None] \<and>
   \<not> ready (hist (run (first_navigation @
              [Continue 0 Undefined, Continue 1 Undefined, Continue 2 Undefined,
               Continue 3 Undefined]) (init router0))) \<and>
   ready (hist (step (Continue 4 Undefined) (run (first_navigation @
              [Continue 0 Undefined, Continue 1 Undefined, Continue 2 Undefined,
               Continue 3 Undefined]) (init router0)))) \<and>
   filter is_flush
     (calls_since
        (hist (run (first_navigation @
              [Continue 0 Undefined, Continue 1 Undefined, Continue 2 Undefined,
               Continue 3 Undefined]) (init router0)))
        (hist (step (Continue 4 Undefined) (run (first_navigation @
              [Continue 0 Undefined, Continue 1 Undefined, Continue 2 Undefined,
               Continue 3 Undefined]) (init router0)))))
     = [ReadyCb 500 (Some routeA)]"
proof -
  have facts: "\<not> ready (hist (run first_navigation (init router0))) \<and>
       ready (hist (step (Continue 0 (Error ''boom'')) (run first_navigation (init router0)))) \<and>
       filter is_flush
         (calls_since (hist (run first_navigation (init router0)))
            (hist (step (Continue 0 (Error ''boom'')) (run first_navigation (init router0)))))
         = [ReadyErrorCb 600 (Error ''boom'')] \<and>
       \<not> ready (hist (step (Continue 0 (Bool False)) (run first_navigation (init router0)))) \<and>
       calls_since (hist (run first_navigation (init router0)))
            (hist (step (Continue 0 (Bool False)) (run first_navigation (init router0))))
         = [EnsureURL (Some True), OnAbort 6 (Bool False)] \<and>
       readyCbs (onReady 7 (Some 8) (hist (run first_navigation (init router0)))) = [500, 7] \<and>
       readyErrorCbs (onReady 7 (Some 8) (hist (run first_navigation (init router0)))) = [600, 8] \<and>
       calls (onReady 7 (Some 8) (hist (run first_navigation (init router0))))
         = calls (hist (run first_navigation (init router0))) \<and>
       calls_since (hist (run (first_navigation @ [Continue 0 (Error ''boom'')]) (init router0)))
         (hist (step (OnReady 7 (Some 8))
              (run (first_navigation @ [Continue 0 (Error ''boom'')]) (init router0))))
         = [ReadyCb 7 None] \<and>
       \<not> ready (hist (run (first_navigation @
                  [Continue 0 Undefined, Continue 1 Undefined, Continue 2 Undefined,
                   Continue 3 Undefined]) (init router0))) \<and>
       ready (hist (step (Continue 4 Undefined) (run (first_navigation @
                  [Continue 0 Undefined, Continue 1 Undefined, Continue 2 Undefined,
                   Continue 3 Undefined]) (init router0)))) \<and>
       filter is_flush
         (calls_since
            (hist (run (first_navigation @
                  [Continue 0 Undefined, Continue 1 Undefined, Continue 2 Undefined,
                   Continue 3 Undefined]) (init router0)))
            (hist (step (Continue 4 Undefined) (run (first_navigation @
                  [Continue 0 Undefined, Continue 1 Undefined, Continue 2 Undefined,
                   Continue 3 Undefined]) (init router0)))))
         = [ReadyCb 500 (Some routeA)]"
    by (simp add: first_navigation_def eval_defs calls_since_def is_flush_def machine_hist_update)
  show ?thesis
    using ready_lifecycle[of first_navigation router0 "Continue 0 (Error ''boom'')"]
      ready_lifecycle[of first_navigation router0 "Continue 0 (Bool False)"]
      ready_lifecycle[of "first_navigation @ [Continue 0 (Error ''boom'')]" router0
        "OnReady 7 (Some 8)"]
      ready_lifecycle[of "first_navigation @
              [Continue 0 Undefined, Continue 1 Undefined, Continue 2 Undefined,
               Continue 3 Undefined]" router0 "Continue 4 Undefined"]
    by - (rule facts)
qed

section \<open>The commit step\<close>

text \<open>
  C8. \<^verbatim>\<open>updateRoute\<close> replaces \<open>current\<close> by the new route, then calls the listener
  with the new route, then every after hook with the new and the previous route, in the
  order of the list: at each of these calls \<open>current\<close> already is the new route. The
  listener is the one \<^verbatim>\<open>listen\<close> set last, and the list of after hooks is in the
  order of registration: registering appends. In every state a controller can reach, an
  event changes \<open>current\<close> only by committing a transition whose route is the pending
  one, and the calls of that step start with those of \<^verbatim>\<open>updateRoute\<close>. Every guard
  invoked gets as its \<open>from\<close> argument the committed route, in a step that leaves
  \<open>current\<close> as it is.
\<close>

theorem commit_only_updates_current:
  assumes "fresh es (init r)"
  shows "updateRoute route h =
           h\<lparr> current := route,
              calls := calls h @
                (case cb h of None \<Rightarrow> [] | Some f \<Rightarrow> [Listener f route route]) @
                concat (map (\<lambda>hook. case hook of
                                       None \<Rightarrow> []
                                     | Some f \<Rightarrow> [AfterHook f route (current h) route])
                            (afterHooks (router h))) \<rparr> \<and>
         cb (hist (step (Listen l) m0)) = Some l \<and>
         afterHooks (router (hist (run (map (Register After) fs) m0)))
           = afterHooks (router (hist m0)) @ map Some fs \<and>
         (let m = run es (init r) in
            (current (hist (step e m)) = current (hist m) \<or>
             (\<exists>t \<in> set (waiting m). \<exists>oc. live t (hist m) \<and>
                hist (step e m) =
                  (hist m)\<lparr> current := t_route t, pending := None, ready := True,
                     calls := calls (hist m) @
                       (case cb (hist m) of None \<Rightarrow> []
                                         | Some f \<Rightarrow> [Listener f (t_route t) (t_route t)]) @
                       concat (map (\<lambda>hook. case hook of
                                       None \<Rightarrow> []
                                     | Some f \<Rightarrow> [AfterHook f (t_route t) (current (hist m))
                                                   (t_route t)])
                                   (afterHooks (router (hist m)))) @
                       (case oc of None \<Rightarrow> [] | Some f \<Rightarrow> [OnComplete f (t_route t)]) @
                       [EnsureURL None] @
                       (if \<not> ready (hist m)
                        then map (\<lambda>f. ReadyCb f (Some (t_route t))) (readyCbs (hist m)) else []) @
                       (if app (router (hist m)) \<noteq> None then [NextTick] else []) \<rparr>)) \<and>
            (\<forall>g rt f. CallGuard g rt f \<in> set (calls_since (hist m) (hist (step e m))) \<longrightarrow>
               f = current (hist m) \<and> current (hist (step e m)) = current (hist m)))"
proof -
  define m where "m = run es (init r)"
  have w: "wf m" unfolding m_def by (rule wf_reachable)
  have j: "sees_current m"
    unfolding m_def by (rule sees_current_run[OF wf_init sees_current_init assms])
  have a: "updateRoute route h =
           h\<lparr> current := route,
              calls := calls h @
                (case cb h of None \<Rightarrow> [] | Some f \<Rightarrow> [Listener f route route]) @
                concat (map (\<lambda>hook. case hook of
                                       None \<Rightarrow> []
                                     | Some f \<Rightarrow> [AfterHook f route (current h) route])
                            (afterHooks (router h))) \<rparr>"
    by (simp add: updateRoute_closed updateRoute_calls_def)
  have l: "cb (hist (step (Listen l) m0)) = Some l" by (simp add: listen_def)
  have reg: "afterHooks (router (hist (run (map (Register After) fs) m0)))
           = afterHooks (router (hist m0)) @ map Some fs"
    by (simp add: register_after_run)
  have b: "current (hist (step e m)) = current (hist m) \<or>
             (\<exists>t \<in> set (waiting m). \<exists>oc. live t (hist m) \<and>
                hist (step e m) =
                  (hist m)\<lparr> current := t_route t, pending := None, ready := True,
                     calls := calls (hist m) @
                       (case cb (hist m) of None \<Rightarrow> []
                                         | Some f \<Rightarrow> [Listener f (t_route t) (t_route t)]) @
                       concat (map (\<lambda>hook. case hook of
                                       None \<Rightarrow> []
                                     | Some f \<Rightarrow> [AfterHook f (t_route t) (current (hist m))
                                                   (t_route t)])
                                   (afterHooks (router (hist m)))) @
                       (case oc of None \<Rightarrow> [] | Some f \<Rightarrow> [OnComplete f (t_route t)]) @
                       [EnsureURL None] @
                       (if \<not> ready (hist m)
                        then map (\<lambda>f. ReadyCb f (Some (t_route t))) (readyCbs (hist m)) else []) @
                       (if app (router (hist m)) \<noteq> None then [NextTick] else []) \<rparr>)"
    using current_step[OF w, of e] by (simp add: committed_def commit_calls_def updateRoute_calls_def)
  have c: "\<forall>g rt f. CallGuard g rt f \<in> set (calls_since (hist m) (hist (step e m))) \<longrightarrow>
               f = current (hist m) \<and> current (hist (step e m)) = current (hist m)"
    using guard_sees_current[OF w j] by blast
  show ?thesis unfolding Let_def m_def[symmetric] using a l reg b c by blast
qed

theorem commit_only_updates_current_witness:
  "fresh to_last_hook (init router_mounted) \<and>
   updateRoute routeB histA
     = histA\<lparr> current := routeB, calls := [AfterHook 300 routeB routeA routeB] \<rparr> \<and>
   afterHooks (router (hist (run (map (Register After) [300, 301]) (init router_mounted))))
     = [Some 300, Some 301] \<and>
   cb (hist (step (Listen 900) (init router_mounted))) = Some 900 \<and>
   current (hist (run to_last_hook (init router_mounted))) = START \<and>
   current (hist (step (Continue 4 Undefined) (run to_last_hook (init router_mounted)))) = routeA \<and>
   calls_since (hist (run to_last_hook (init router_mounted)))
     (hist (step (Continue 4 Undefined) (run to_last_hook (init router_mounted))))
     = [Listener 900 routeA routeA, AfterHook 300 routeA START routeA,
        AfterHook 301 routeA START routeA, OnComplete 5 routeA, EnsureURL None,
        ReadyCb 500 (Some routeA), NextTick] \<and>
   calls_since (hist (run registrations (init router_mounted)))
     (hist (step (Navigate (\<lambda>l c. routeA) (Str ''/p/a'') (Some 5) (Some 6))
              (run registrations (init router_mounted))))
     = [CallGuard (Hook 100) routeA START]"
proof -
  have f: "fresh to_last_hook (init router_mounted)"
    by (simp add: to_last_hook_def registrations_def eval_defs machine_hist_update listen_def
        on_registry_def registerHook_def)
  have f1: "fresh registrations (init router_mounted)"
    by (simp add: registrations_def eval_defs machine_hist_update listen_def
        on_registry_def registerHook_def)
  show ?thesis
    using f
      commit_only_updates_current[OF f, of routeB histA 900 "init router_mounted" "[300, 301]"
        "Continue 4 Undefined"]
      commit_only_updates_current[OF f1, of routeB histA 900 "init router_mounted" "[300, 301]"
        "Navigate (\<lambda>l c. routeA) (Str ''/p/a'') (Some 5) (Some 6)"]
    by (simp add: to_last_hook_def registrations_def eval_defs machine_hist_update listen_def
        on_registry_def registerHook_def calls_since_def)
qed

section \<open>Post-enter callbacks\<close>




section \<open>Ready callbacks registered late\<close>

text \<open>
  C10. \<^verbatim>\<open>onReady(cb, errorCb)\<close> with the ready flag already true calls \<open>cb\<close> at once,
  with no argument, and changes nothing else: \<open>errorCb\<close> is neither stored nor called.
  With the flag still false, \<open>cb\<close> is queued, and \<open>errorCb\<close> too when it is given.
\<close>

theorem onReady_when_ready:
  "(ready h \<longrightarrow> onReady f errorCb h = h\<lparr> calls := calls h @ [ReadyCb f None] \<rparr>) \<and>
   (\<not> ready h \<longrightarrow>
      onReady f errorCb h =
        h\<lparr> readyCbs := readyCbs h @ [f],
           readyErrorCbs := readyErrorCbs h @ (case errorCb of None \<Rightarrow> [] | Some e \<Rightarrow> [e]) \<rparr>)"
  by (simp add: onReady_def log_def Let_def split: option.splits)

theorem onReady_when_ready_witness:
  "onReady 7 (Some 8) ((new_History router0)\<lparr> ready := True \<rparr>)
     = (new_History router0)\<lparr> ready := True, calls := [ReadyCb 7 None] \<rparr> \<and>
   onReady 7 (Some 8) (new_History router0)
     = (new_History router0)\<lparr> readyCbs := [7], readyErrorCbs := [8] \<rparr>"
  using onReady_when_ready[of "(new_History router0)\<lparr> ready := True \<rparr>" 7 "Some 8"]
        onReady_when_ready[of "new_History router0" 7 "Some 8"]
  by (simp add: new_History_def)

end
